theory Spec2Isabelle
  imports Main
begin

text \<open>
  The class \<^verbatim>\<open>SummarizableObject\<close> of the Fluid Framework
  (\<^verbatim>\<open>packages/runtime/summarizable-object/src/summarizableObject.ts\<close>): a Map from strings
  to JSON values that is written into the summary of a document as one blob and read back
  from it, and that takes no ops. The theory models the built-ins the class calls (the Map,
  assignment to an object, \<^verbatim>\<open>JSON.stringify\<close>, \<^verbatim>\<open>JSON.parse\<close>, \<^verbatim>\<open>Object.entries\<close>), then the
  class method by method, and proves what the specification says of it.
\<close>

section \<open>JavaScript values\<close>

text \<open>
  The values a \<^verbatim>\<open>Map<string, Jsonable>\<close> can hold at run time: the type \<^verbatim>\<open>Jsonable\<close> is
  \<^verbatim>\<open>any\<close> to the running program, so \<^verbatim>\<open>undefined\<close>, a BigInt and a function are among them.
  A number is modelled by its integer value; a BigInt by its value; a string by its list of
  code units, each below 256; a function by a number that tells it from other functions,
  what a call of it does is not modelled. An array has its elements and no other property.
  An object is a plain one: its prototype is \<^verbatim>\<open>Object.prototype\<close>, its own properties are
  writable, enumerable data properties with string keys, listed in JavaScript's property
  order. The built-in prototypes are as the language makes them.

  The type has no term for a number that is not an integer (nor for \<^verbatim>\<open>NaN\<close>, an infinity
  or \<^verbatim>\<open>-0\<close>), for a symbol, for an object with an accessor property or with another
  prototype (a \<^verbatim>\<open>Date\<close>, an instance of a class), nor for values that share or contain
  one another (a cyclic object): the theory says nothing of them.
\<close>

datatype jsvalue =
    JUndefined
  | JNull
  | JBoolean bool
  | JNumber int
  | JBigInt int
  | JString string
  | JFunction nat
  | JArray "jsvalue list"
  | JObject "(string \<times> jsvalue) list"

text \<open>
  Exceptions, and two outcomes that are not exceptions of the program: \<open>OutsideModel\<close> marks
  a step whose outcome this model does not give (a value it cannot represent, a call of a
  function value), so that the theory says nothing of a run past such a step; \<open>OutOfFuel\<close>
  marks a recursion that the model cut short.
\<close>

datatype error =
    Error string
  | SyntaxError
  | TypeError
  | OutsideModel
  | OutOfFuel

definition safe_integer :: "int \<Rightarrow> bool" where
  "safe_integer n \<longleftrightarrow> - 9007199254740991 \<le> n \<and> n \<le> 9007199254740991"

text \<open>
  The JSON value model: null, a boolean, a number, a string, an array or a string-keyed
  object, recursively.
\<close>

fun jsonable :: "jsvalue \<Rightarrow> bool"
  and jsonable_elements :: "jsvalue list \<Rightarrow> bool"
  and jsonable_members :: "(string \<times> jsvalue) list \<Rightarrow> bool"
where
  "jsonable JUndefined = False"
| "jsonable JNull = True"
| "jsonable (JBoolean b) = True"
| "jsonable (JNumber n) = True"
| "jsonable (JBigInt n) = False"
| "jsonable (JString s) = True"
| "jsonable (JFunction f) = False"
| "jsonable (JArray vs) = jsonable_elements vs"
| "jsonable (JObject ps) = jsonable_members ps"
| "jsonable_elements [] = True"
| "jsonable_elements (v # vs) = (jsonable v \<and> jsonable_elements vs)"
| "jsonable_members [] = True"
| "jsonable_members ((k, v) # ps) = (jsonable v \<and> jsonable_members ps)"

subsection \<open>Decimal numerals\<close>

definition digit_char :: "nat \<Rightarrow> char" where
  "digit_char d = char_of (48 + d)"

fun nat_digits :: "nat \<Rightarrow> string" where
  "nat_digits n = (if n < 10 then [digit_char n] else nat_digits (n div 10) @ [digit_char (n mod 10)])"

declare nat_digits.simps [simp del]

text \<open>The decimal numeral of an integer.\<close>

definition int_digits :: "int \<Rightarrow> string" where
  "int_digits n = (if n < 0 then CHR ''-'' # nat_digits (nat (- n)) else nat_digits (nat n))"

text \<open>
  \<^verbatim>\<open>Number::toString\<close> of an integer. For a safe integer it is the decimal numeral. An
  integer beyond the safe ones need not be a number of JavaScript, and from \<open>10^21\<close> on the
  text of a number has an exponent: these are outside the model.
\<close>

definition Number_toString :: "int \<Rightarrow> error + string" where
  "Number_toString n = (if safe_integer n then Inr (int_digits n) else Inl OutsideModel)"

definition is_digit :: "char \<Rightarrow> bool" where
  "is_digit c \<longleftrightarrow> 48 \<le> (of_char c :: nat) \<and> (of_char c :: nat) \<le> 57"

definition digit_val :: "char \<Rightarrow> int" where
  "digit_val c = of_char c - 48"

definition digits_int :: "string \<Rightarrow> int" where
  "digits_int ds = foldl (\<lambda>acc c. 10 * acc + digit_val c) 0 ds"

subsection \<open>The built-in Map: insertion-ordered, keys unique\<close>

fun Map_set :: "string \<Rightarrow> jsvalue \<Rightarrow> (string \<times> jsvalue) list \<Rightarrow> (string \<times> jsvalue) list" where
  "Map_set k v [] = [(k, v)]"
| "Map_set k v ((k', v') # m) = (if k' = k then (k, v) # m else (k', v') # Map_set k v m)"

definition Map_get :: "(string \<times> jsvalue) list \<Rightarrow> string \<Rightarrow> jsvalue" where
  "Map_get m k = (case map_of m k of None \<Rightarrow> JUndefined | Some v \<Rightarrow> v)"

subsection \<open>Ordinary objects\<close>

text \<open>
  An array index is the canonical decimal numeral of a number below \<open>2^32 - 1\<close>. The own
  property keys of an object are ordered: array indices ascending, then the other keys in
  the order of their creation.
\<close>

definition array_index :: "string \<Rightarrow> int option" where
  "array_index k =
     (if k \<noteq> [] \<and> list_all is_digit k \<and> (k = ''0'' \<or> hd k \<noteq> CHR ''0'') \<and> digits_int k < 4294967295
      then Some (digits_int k) else None)"

fun insert_property :: "string \<Rightarrow> jsvalue \<Rightarrow> (string \<times> jsvalue) list \<Rightarrow> (string \<times> jsvalue) list" where
  "insert_property k v [] = [(k, v)]"
| "insert_property k v ((k', v') # ps) =
     (case array_index k of
        None \<Rightarrow> (k', v') # insert_property k v ps
      | Some n \<Rightarrow>
          (case array_index k' of
             None \<Rightarrow> (k, v) # (k', v') # ps
           | Some n' \<Rightarrow> if n < n' then (k, v) # (k', v') # ps else (k', v') # insert_property k v ps))"

definition update_property :: "string \<Rightarrow> jsvalue \<Rightarrow> (string \<times> jsvalue) list \<Rightarrow> (string \<times> jsvalue) list" where
  "update_property k v ps = map (\<lambda>(k', v'). if k' = k then (k', v) else (k', v')) ps"

text \<open>\<^verbatim>\<open>CreateDataProperty\<close>: define or overwrite an own property.\<close>

definition CreateDataProperty :: "string \<Rightarrow> jsvalue \<Rightarrow> (string \<times> jsvalue) list \<Rightarrow> (string \<times> jsvalue) list" where
  "CreateDataProperty k v ps =
     (if k \<in> set (map fst ps) then update_property k v ps else insert_property k v ps)"

text \<open>The value of an own property, \<^verbatim>\<open>undefined\<close> when there is none of that key.\<close>

definition own_property :: "(string \<times> jsvalue) list \<Rightarrow> string \<Rightarrow> jsvalue" where
  "own_property ps k = (case map_of ps k of None \<Rightarrow> JUndefined | Some v \<Rightarrow> v)"

text \<open>
  An object made by the literal \<^verbatim>\<open>{}\<close>, as assignments change it: its prototype and its
  own properties. The prototype is \<^verbatim>\<open>Object.prototype\<close> at first, and \<^verbatim>\<open>null\<close> or a value
  once the setter of \<^verbatim>\<open>__proto__\<close> has made it so.
\<close>

datatype jsprototype = ObjectPrototype | NullPrototype | ValuePrototype jsvalue

record OrdinaryObject =
  prototype_slot :: jsprototype
  properties :: "(string \<times> jsvalue) list"

definition empty_object :: OrdinaryObject where
  "empty_object = \<lparr>prototype_slot = ObjectPrototype, properties = []\<rparr>"

text \<open>
  The setter of the accessor property \<^verbatim>\<open>__proto__\<close> of \<^verbatim>\<open>Object.prototype\<close>: an object or
  \<^verbatim>\<open>null\<close> becomes the prototype of the receiver, any other value is ignored; no own
  property is created. A function as the prototype is outside the model: which of its own
  properties are writable depends on the kind of function.
\<close>

definition set_proto :: "jsvalue \<Rightarrow> OrdinaryObject \<Rightarrow> error + OrdinaryObject" where
  "set_proto v obj =
     (case v of
        JNull \<Rightarrow> Inr (obj\<lparr>prototype_slot := NullPrototype\<rparr>)
      | JArray vs \<Rightarrow> Inr (obj\<lparr>prototype_slot := ValuePrototype v\<rparr>)
      | JObject ps \<Rightarrow> Inr (obj\<lparr>prototype_slot := ValuePrototype v\<rparr>)
      | JFunction f \<Rightarrow> Inl OutsideModel
      | _ \<Rightarrow> Inr obj)"

text \<open>
  Whether the lookup of the key \<^verbatim>\<open>__proto__\<close> along the prototype chain ends at the accessor
  of \<^verbatim>\<open>Object.prototype\<close>: not when the chain is empty, and not when a plain object on it
  has an own data property of that key.
\<close>

fun reaches_proto_accessor :: "jsprototype \<Rightarrow> bool" where
  "reaches_proto_accessor ObjectPrototype = True"
| "reaches_proto_accessor NullPrototype = False"
| "reaches_proto_accessor (ValuePrototype (JObject qs)) = (''__proto__'' \<notin> set (map fst qs))"
| "reaches_proto_accessor (ValuePrototype v) = True"

text \<open>
  The assignment \<^verbatim>\<open>obj[k] = v\<close>. An own property of the key is overwritten. Otherwise the
  key is looked up along the prototype chain: for \<^verbatim>\<open>__proto__\<close> that finds the accessor of
  \<^verbatim>\<open>Object.prototype\<close>, unless something on the chain hides it, and the setter runs; any
  other key finds nothing or a writable data property (every other property of
  \<^verbatim>\<open>Object.prototype\<close> and \<^verbatim>\<open>Array.prototype\<close>, and every property of a plain object or an
  array, is one), and the assignment defines an own property of the receiver.
\<close>

definition OrdinarySet :: "string \<Rightarrow> jsvalue \<Rightarrow> OrdinaryObject \<Rightarrow> error + OrdinaryObject" where
  "OrdinarySet k v obj =
     (if k = ''__proto__'' \<and> k \<notin> set (map fst (properties obj)) \<and> reaches_proto_accessor (prototype_slot obj)
      then set_proto v obj
      else Inr (obj\<lparr>properties := CreateDataProperty k v (properties obj)\<rparr>))"

text \<open>
  The value of the property \<^verbatim>\<open>toJSON\<close>, own or inherited. \<^verbatim>\<open>Object.prototype\<close> and
  \<^verbatim>\<open>Array.prototype\<close> have no such property.
\<close>

definition Get_toJSON :: "OrdinaryObject \<Rightarrow> jsvalue" where
  "Get_toJSON obj =
     (case map_of (properties obj) ''toJSON'' of
        Some f \<Rightarrow> f
      | None \<Rightarrow>
          (case prototype_slot obj of
             ValuePrototype (JObject qs) \<Rightarrow> own_property qs ''toJSON''
           | _ \<Rightarrow> JUndefined))"

fun IsCallable :: "jsvalue \<Rightarrow> bool" where
  "IsCallable (JFunction f) = True"
| "IsCallable v = False"

subsection \<open>JSON.stringify\<close>

definition hex_char :: "nat \<Rightarrow> char" where
  "hex_char d = (if d < 10 then char_of (48 + d) else char_of (87 + d))"

definition QuoteJSONChar :: "char \<Rightarrow> string" where
  "QuoteJSONChar c =
     (if c = CHR 0x22 then [CHR 0x5C, CHR 0x22]
      else if c = CHR 0x5C then [CHR 0x5C, CHR 0x5C]
      else if c = CHR 0x08 then [CHR 0x5C, CHR ''b'']
      else if c = CHR 0x0C then [CHR 0x5C, CHR ''f'']
      else if c = CHR 0x0A then [CHR 0x5C, CHR ''n'']
      else if c = CHR 0x0D then [CHR 0x5C, CHR ''r'']
      else if c = CHR 0x09 then [CHR 0x5C, CHR ''t'']
      else if (of_char c :: nat) < 0x20 then
        [CHR 0x5C, CHR ''u'', CHR ''0'', CHR ''0'',
         hex_char ((of_char c :: nat) div 16), hex_char ((of_char c :: nat) mod 16)]
      else [c])"

definition QuoteJSONString :: "string \<Rightarrow> string" where
  "QuoteJSONString s = CHR 0x22 # concat (map QuoteJSONChar s) @ [CHR 0x22]"

fun join_comma :: "string list \<Rightarrow> string" where
  "join_comma [] = []"
| "join_comma [x] = x"
| "join_comma (x # y # xs) = x @ CHR '','' # join_comma (y # xs)"

text \<open>
  \<^verbatim>\<open>SerializeJSONProperty\<close> returns the text of a value, or \<^verbatim>\<open>undefined\<close> (here \<open>None\<close>) for
  \<^verbatim>\<open>undefined\<close> and for a function: such a value is written \<^verbatim>\<open>null\<close> as an array element and
  left out as an object member. It throws a \<^verbatim>\<open>TypeError\<close> for a BigInt. When the value is an
  object whose property \<^verbatim>\<open>toJSON\<close> is a function, it calls that function and goes on with
  what the call returns: the outcome is outside the model. The elements of an array and the
  members of an object are serialized in order, and the first exception ends the whole.
\<close>

fun SerializeJSONProperty :: "jsvalue \<Rightarrow> error + string option"
  and SerializeJSONArray :: "jsvalue list \<Rightarrow> error + string list"
  and SerializeJSONObject :: "(string \<times> jsvalue) list \<Rightarrow> error + string list"
where
  "SerializeJSONProperty JUndefined = Inr None"
| "SerializeJSONProperty JNull = Inr (Some ''null'')"
| "SerializeJSONProperty (JBoolean b) = Inr (Some (if b then ''true'' else ''false''))"
| "SerializeJSONProperty (JNumber n) =
     (case Number_toString n of Inl e \<Rightarrow> Inl e | Inr s \<Rightarrow> Inr (Some s))"
| "SerializeJSONProperty (JBigInt n) = Inl TypeError"
| "SerializeJSONProperty (JString s) = Inr (Some (QuoteJSONString s))"
| "SerializeJSONProperty (JFunction f) = Inr None"
| "SerializeJSONProperty (JArray vs) =
     (case SerializeJSONArray vs of
        Inl e \<Rightarrow> Inl e
      | Inr ts \<Rightarrow> Inr (Some (''['' @ join_comma ts @ '']'')))"
| "SerializeJSONProperty (JObject ps) =
     (if IsCallable (own_property ps ''toJSON'') then Inl OutsideModel
      else
        (case SerializeJSONObject ps of
           Inl e \<Rightarrow> Inl e
         | Inr ts \<Rightarrow> Inr (Some (''{'' @ join_comma ts @ ''}''))))"
| "SerializeJSONArray [] = Inr []"
| "SerializeJSONArray (v # vs) =
     (case SerializeJSONProperty v of
        Inl e \<Rightarrow> Inl e
      | Inr t \<Rightarrow>
          (case SerializeJSONArray vs of
             Inl e \<Rightarrow> Inl e
           | Inr ts \<Rightarrow> Inr ((case t of None \<Rightarrow> ''null'' | Some s \<Rightarrow> s) # ts)))"
| "SerializeJSONObject [] = Inr []"
| "SerializeJSONObject ((k, v) # ps) =
     (case SerializeJSONProperty v of
        Inl e \<Rightarrow> Inl e
      | Inr t \<Rightarrow>
          (case SerializeJSONObject ps of
             Inl e \<Rightarrow> Inl e
           | Inr ts \<Rightarrow>
               Inr (case t of None \<Rightarrow> ts | Some s \<Rightarrow> (QuoteJSONString k @ CHR '':'' # s) # ts)))"

text \<open>\<^verbatim>\<open>JSON.stringify\<close> of a value: its text, or \<^verbatim>\<open>undefined\<close>, or an exception.\<close>

definition JSON_stringify :: "jsvalue \<Rightarrow> error + string option" where
  "JSON_stringify v = SerializeJSONProperty v"

text \<open>
  \<^verbatim>\<open>JSON.stringify\<close> of an object made by a literal and changed by assignments. Its
  property \<^verbatim>\<open>toJSON\<close> may be its own or come from its prototype; only its own properties
  are written. Without a call of \<^verbatim>\<open>toJSON\<close> the result is a string or an exception.
\<close>

definition JSON_stringify_object :: "OrdinaryObject \<Rightarrow> error + string" where
  "JSON_stringify_object obj =
     (if IsCallable (Get_toJSON obj) then Inl OutsideModel
      else
        (case SerializeJSONObject (properties obj) of
           Inl e \<Rightarrow> Inl e
         | Inr ts \<Rightarrow> Inr (''{'' @ join_comma ts @ ''}'')))"

subsection \<open>JSON.parse\<close>

definition is_ws :: "char \<Rightarrow> bool" where
  "is_ws c \<longleftrightarrow> c = CHR '' '' \<or> c = CHR 0x09 \<or> c = CHR 0x0A \<or> c = CHR 0x0D"

definition skip_ws :: "string \<Rightarrow> string" where
  "skip_ws s = dropWhile is_ws s"

definition hex_val :: "char \<Rightarrow> nat option" where
  "hex_val c =
     (let n = (of_char c :: nat) in
      if 48 \<le> n \<and> n \<le> 57 then Some (n - 48)
      else if 97 \<le> n \<and> n \<le> 102 then Some (n - 87)
      else if 65 \<le> n \<and> n \<le> 70 then Some (n - 55)
      else None)"

text \<open>The character a one-letter escape stands for.\<close>

definition unescape :: "char \<Rightarrow> char option" where
  "unescape e =
     (if e = CHR 0x22 then Some (CHR 0x22)
      else if e = CHR 0x5C then Some (CHR 0x5C)
      else if e = CHR ''/'' then Some (CHR ''/'')
      else if e = CHR ''b'' then Some (CHR 0x08)
      else if e = CHR ''f'' then Some (CHR 0x0C)
      else if e = CHR ''n'' then Some (CHR 0x0A)
      else if e = CHR ''r'' then Some (CHR 0x0D)
      else if e = CHR ''t'' then Some (CHR 0x09)
      else None)"

definition cons_char :: "char \<Rightarrow> error + (string \<times> string) \<Rightarrow> error + (string \<times> string)" where
  "cons_char c r = (case r of Inl e \<Rightarrow> Inl e | Inr (str, rest) \<Rightarrow> Inr (c # str, rest))"

text \<open>
  The characters of a string literal, after its opening quote, up to the closing quote.
  A \<^verbatim>\<open>\u\<close> escape of a code unit above 255 is outside the model.
\<close>

fun parse_string_chars :: "string \<Rightarrow> error + (string \<times> string)" where
  "parse_string_chars [] = Inl SyntaxError"
| "parse_string_chars (c # cs) =
     (if c = CHR 0x22 then Inr ([], cs)
      else if c = CHR 0x5C then
        (case cs of
           [] \<Rightarrow> Inl SyntaxError
         | e # cs' \<Rightarrow>
             if e = CHR ''u'' then
               (case cs' of
                  h1 # h2 # h3 # h4 # cs'' \<Rightarrow>
                    (case (hex_val h1, hex_val h2, hex_val h3, hex_val h4) of
                       (Some d1, Some d2, Some d3, Some d4) \<Rightarrow>
                         if d1 = 0 \<and> d2 = 0 then cons_char (char_of (16 * d3 + d4)) (parse_string_chars cs'')
                         else Inl OutsideModel
                     | _ \<Rightarrow> Inl SyntaxError)
                | _ \<Rightarrow> Inl SyntaxError)
             else
               (case unescape e of
                  None \<Rightarrow> Inl SyntaxError
                | Some ch \<Rightarrow> cons_char ch (parse_string_chars cs')))
      else if (of_char c :: nat) < 0x20 then Inl SyntaxError
      else cons_char c (parse_string_chars cs))"

text \<open>
  A number token: an optional minus sign and an integer part without a leading zero. A
  fraction, an exponent, or an integer that is not a safe integer, is outside the model.
\<close>

definition parse_number :: "string \<Rightarrow> error + (jsvalue \<times> string)" where
  "parse_number s =
     (let neg = (s \<noteq> [] \<and> hd s = CHR ''-'');
          s1 = (if neg then tl s else s);
          ds = takeWhile is_digit s1;
          rest = dropWhile is_digit s1
      in if ds = [] then Inl SyntaxError
         else if 1 < length ds \<and> hd ds = CHR ''0'' then Inl SyntaxError
         else if rest \<noteq> [] \<and> (hd rest = CHR ''.'' \<or> hd rest = CHR ''e'' \<or> hd rest = CHR ''E'') then Inl OutsideModel
         else if \<not> safe_integer (digits_int ds) then Inl OutsideModel
         else Inr (JNumber (if neg then - digits_int ds else digits_int ds), rest))"

text \<open>
  The recursive descent, with fuel for the depth of the calls; \<open>JSON_parse\<close> gives it
  more than the text can use (theorem \<open>JSON_parse_fuel\<close>). The members of an object are
  defined in the order of the text, a later member overwriting an earlier one of the same
  key.
\<close>

fun parse_value :: "nat \<Rightarrow> string \<Rightarrow> error + (jsvalue \<times> string)"
  and parse_elements :: "nat \<Rightarrow> string \<Rightarrow> error + (jsvalue list \<times> string)"
  and parse_members :: "nat \<Rightarrow> string \<Rightarrow> error + ((string \<times> jsvalue) list \<times> string)"
where
  "parse_value 0 s = Inl OutOfFuel"
| "parse_value (Suc n) s =
     (case s of
        [] \<Rightarrow> Inl SyntaxError
      | c # cs \<Rightarrow>
          if c = CHR ''{'' then
            (if skip_ws cs \<noteq> [] \<and> hd (skip_ws cs) = CHR ''}'' then Inr (JObject [], tl (skip_ws cs))
             else
               (case parse_members n (skip_ws cs) of
                  Inl e \<Rightarrow> Inl e
                | Inr (ms, r) \<Rightarrow> Inr (JObject (foldl (\<lambda>ps (k, v). CreateDataProperty k v ps) [] ms), r)))
          else if c = CHR ''['' then
            (if skip_ws cs \<noteq> [] \<and> hd (skip_ws cs) = CHR '']'' then Inr (JArray [], tl (skip_ws cs))
             else
               (case parse_elements n (skip_ws cs) of
                  Inl e \<Rightarrow> Inl e
                | Inr (vs, r) \<Rightarrow> Inr (JArray vs, r)))
          else if c = CHR 0x22 then
            (case parse_string_chars cs of
               Inl e \<Rightarrow> Inl e
             | Inr (str, r) \<Rightarrow> Inr (JString str, r))
          else if c = CHR ''-'' \<or> is_digit c then parse_number s
          else if take 4 s = ''true'' then Inr (JBoolean True, drop 4 s)
          else if take 5 s = ''false'' then Inr (JBoolean False, drop 5 s)
          else if take 4 s = ''null'' then Inr (JNull, drop 4 s)
          else Inl SyntaxError)"
| "parse_elements 0 s = Inl OutOfFuel"
| "parse_elements (Suc n) s =
     (case parse_value n s of
        Inl e \<Rightarrow> Inl e
      | Inr (v, r) \<Rightarrow>
          (case skip_ws r of
             [] \<Rightarrow> Inl SyntaxError
           | c # r' \<Rightarrow>
               if c = CHR '','' then
                 (case parse_elements n (skip_ws r') of
                    Inl e \<Rightarrow> Inl e
                  | Inr (vs, r'') \<Rightarrow> Inr (v # vs, r''))
               else if c = CHR '']'' then Inr ([v], r')
               else Inl SyntaxError))"
| "parse_members 0 s = Inl OutOfFuel"
| "parse_members (Suc n) s =
     (case s of
        [] \<Rightarrow> Inl SyntaxError
      | q # cs \<Rightarrow>
          if q \<noteq> CHR 0x22 then Inl SyntaxError
          else
            (case parse_string_chars cs of
               Inl e \<Rightarrow> Inl e
             | Inr (k, r) \<Rightarrow>
                 (case skip_ws r of
                    [] \<Rightarrow> Inl SyntaxError
                  | c # r1 \<Rightarrow>
                      if c \<noteq> CHR '':'' then Inl SyntaxError
                      else
                        (case parse_value n (skip_ws r1) of
                           Inl e \<Rightarrow> Inl e
                         | Inr (v, r2) \<Rightarrow>
                             (case skip_ws r2 of
                                [] \<Rightarrow> Inl SyntaxError
                              | d # r3 \<Rightarrow>
                                  if d = CHR '','' then
                                    (case parse_members n (skip_ws r3) of
                                       Inl e \<Rightarrow> Inl e
                                     | Inr (ms, r4) \<Rightarrow> Inr ((k, v) # ms, r4))
                                  else if d = CHR ''}'' then Inr ([(k, v)], r3)
                                  else Inl SyntaxError)))))"

definition JSON_parse :: "string \<Rightarrow> error + jsvalue" where
  "JSON_parse text =
     (case parse_value (2 * length text + 1) (skip_ws text) of
        Inl e \<Rightarrow> Inl e
      | Inr (v, rest) \<Rightarrow> if skip_ws rest = [] then Inr v else Inl SyntaxError)"

subsection \<open>Object.entries\<close>

text \<open>
  The own enumerable string-keyed properties: of an object its properties, of an array its
  elements under their indices, of a string its code units under their indices, of a
  number or a boolean none. \<^verbatim>\<open>null\<close> and \<^verbatim>\<open>undefined\<close> cannot be converted to an object.
\<close>

definition index_keys :: "nat \<Rightarrow> string list" where
  "index_keys n = map nat_digits [0..<n]"

fun Object_entries :: "jsvalue \<Rightarrow> error + (string \<times> jsvalue) list" where
  "Object_entries JUndefined = Inl TypeError"
| "Object_entries JNull = Inl TypeError"
| "Object_entries (JBoolean b) = Inr []"
| "Object_entries (JNumber n) = Inr []"
| "Object_entries (JBigInt n) = Inr []"
| "Object_entries (JFunction f) = Inr []"
| "Object_entries (JString s) = Inr (zip (index_keys (length s)) (map (\<lambda>c. JString [c]) s))"
| "Object_entries (JArray vs) = Inr (zip (index_keys (length vs)) vs)"
| "Object_entries (JObject ps) = Inr ps"

section \<open>The transport encoding of a blob\<close>

text \<open>
  Modelled from the spec: the storage layer's encoding of a blob, and its inverse
  \<^verbatim>\<open>fromBase64ToUtf8\<close> of the common utilities, are not among the sources. The spec has the
  blob travel as the base64 form of the UTF-8 bytes of its text, decoded symmetrically on
  load, and has text that is not validly encoded rejected.
\<close>

fun utf8_encode :: "string \<Rightarrow> string" where
  "utf8_encode [] = []"
| "utf8_encode (c # cs) =
     (let n = (of_char c :: nat) in
      if n < 128 then c # utf8_encode cs
      else char_of (192 + n div 64) # char_of (128 + n mod 64) # utf8_encode cs)"

definition cons_byte :: "char \<Rightarrow> error + string \<Rightarrow> error + string" where
  "cons_byte c r = (case r of Inl e \<Rightarrow> Inl e | Inr cs \<Rightarrow> Inr (c # cs))"

fun utf8_decode :: "string \<Rightarrow> error + string" where
  "utf8_decode [] = Inr []"
| "utf8_decode (b # bs) =
     (let n = (of_char b :: nat) in
      if n < 128 then cons_byte b (utf8_decode bs)
      else if n = 194 \<or> n = 195 then
        (case bs of
           [] \<Rightarrow> Inl (Error ''invalid UTF-8'')
         | b2 # bs' \<Rightarrow>
             (let m = (of_char b2 :: nat) in
              if 128 \<le> m \<and> m < 192 then cons_byte (char_of ((n - 192) * 64 + (m - 128))) (utf8_decode bs')
              else Inl (Error ''invalid UTF-8'')))
      else if n < 194 then Inl (Error ''invalid UTF-8'')
      else Inl OutsideModel)"

definition base64_char :: "nat \<Rightarrow> char" where
  "base64_char n =
     (if n < 26 then char_of (65 + n)
      else if n < 52 then char_of (71 + n)
      else if n < 62 then char_of (n - 4)
      else if n = 62 then CHR ''+''
      else CHR ''/'')"

definition base64_value :: "char \<Rightarrow> nat option" where
  "base64_value c =
     (let n = (of_char c :: nat) in
      if 65 \<le> n \<and> n \<le> 90 then Some (n - 65)
      else if 97 \<le> n \<and> n \<le> 122 then Some (n - 71)
      else if 48 \<le> n \<and> n \<le> 57 then Some (n + 4)
      else if n = 43 then Some 62
      else if n = 47 then Some 63
      else None)"

fun base64_encode :: "string \<Rightarrow> string" where
  "base64_encode [] = []"
| "base64_encode [a] =
     (let x = (of_char a :: nat) in
      [base64_char (x div 4), base64_char (x mod 4 * 16), CHR ''='', CHR ''=''])"
| "base64_encode [a, b] =
     (let x = (of_char a :: nat); y = (of_char b :: nat) in
      [base64_char (x div 4), base64_char (x mod 4 * 16 + y div 16), base64_char (y mod 16 * 4), CHR ''=''])"
| "base64_encode (a # b # c # rest) =
     (let x = (of_char a :: nat); y = (of_char b :: nat); z = (of_char c :: nat) in
      base64_char (x div 4) # base64_char (x mod 4 * 16 + y div 16) #
      base64_char (y mod 16 * 4 + z div 64) # base64_char (z mod 64) # base64_encode rest)"

fun base64_decode :: "string \<Rightarrow> error + string" where
  "base64_decode [] = Inr []"
| "base64_decode (c1 # c2 # c3 # c4 # rest) =
     (case (base64_value c1, base64_value c2) of
        (Some v1, Some v2) \<Rightarrow>
          (if c3 = CHR ''='' then
             (if c4 = CHR ''='' \<and> rest = [] then Inr [char_of (v1 * 4 + v2 div 16)]
              else Inl (Error ''invalid base64''))
           else
             (case base64_value c3 of
                None \<Rightarrow> Inl (Error ''invalid base64'')
              | Some v3 \<Rightarrow>
                  (if c4 = CHR ''='' then
                     (if rest = [] then Inr [char_of (v1 * 4 + v2 div 16), char_of (v2 mod 16 * 16 + v3 div 4)]
                      else Inl (Error ''invalid base64''))
                   else
                     (case base64_value c4 of
                        None \<Rightarrow> Inl (Error ''invalid base64'')
                      | Some v4 \<Rightarrow>
                          cons_byte (char_of (v1 * 4 + v2 div 16))
                            (cons_byte (char_of (v2 mod 16 * 16 + v3 div 4))
                               (cons_byte (char_of (v3 mod 4 * 64 + v4)) (base64_decode rest)))))))
      | _ \<Rightarrow> Inl (Error ''invalid base64''))"
| "base64_decode _ = Inl (Error ''invalid base64'')"

definition utf8_to_base64 :: "string \<Rightarrow> string" where
  "utf8_to_base64 text = base64_encode (utf8_encode text)"

definition base64_to_utf8 :: "string \<Rightarrow> error + string" where
  "base64_to_utf8 raw = (case base64_decode raw of Inl e \<Rightarrow> Inl e | Inr bytes \<Rightarrow> utf8_decode bytes)"

section \<open>The snapshot tree\<close>

text \<open>
  Modelled from the spec: the tree types of the protocol definitions (\<^verbatim>\<open>FileMode\<close>,
  \<^verbatim>\<open>TreeEntry\<close>, \<^verbatim>\<open>ITree\<close> and its entries) are declared outside the sources. The spec gives
  the format: a tree has an id, which may be absent, and entries; an entry has a path, a
  mode, the name of its kind, and a value, which for a blob holds the contents and the name
  of the encoding.
\<close>

datatype FileMode = File | Directory | Executable | Symlink

datatype TreeEntry = Blob | Commit | Tree

text \<open>\<^verbatim>\<open>TreeEntry[TreeEntry.Blob]\<close> is the name of the enumeration member.\<close>

fun TreeEntry_name :: "TreeEntry \<Rightarrow> string" where
  "TreeEntry_name Blob = ''Blob''"
| "TreeEntry_name Commit = ''Commit''"
| "TreeEntry_name Tree = ''Tree''"

record IBlob =
  contents :: string
  encoding :: string

datatype ITree = ITree (entries: "ITreeEntry list") (tree_id: "string option")
  and ITreeEntry = ITreeEntry (mode: FileMode) (path: string) (entry_type: string) (entry_value: ITreeEntryValue)
  and ITreeEntryValue = BlobValue IBlob | TreeValue ITree | CommitValue string

section \<open>SummarizableObject\<close>

definition snapshotFileName :: string where
  "snapshotFileName = ''header''"

text \<open>
  Modelled from the spec: the base class \<^verbatim>\<open>SharedObject\<close> is not among the sources. The spec
  has it keep a dirty flag for the object, false when the object is constructed and set by
  the method \<^verbatim>\<open>dirty\<close>.
\<close>

record SharedObject =
  is_dirty :: bool

text \<open>The class adds the private field \<open>data\<close>, a Map from strings to values.\<close>

record SummarizableObject = SharedObject +
  data :: "(string \<times> jsvalue) list"

text \<open>
  A method takes the object and returns its completion (\<open>Inl\<close> an exception thrown, \<open>Inr\<close>
  the value returned) with the object as the call leaves it.
\<close>

type_synonym 'a completion = "(error + 'a) \<times> SummarizableObject"

text \<open>The constructor: the base class starts not dirty, and \<open>data\<close> is a new, empty Map.\<close>

definition new_SummarizableObject :: SummarizableObject where
  "new_SummarizableObject = \<lparr>is_dirty = False, data = []\<rparr>"

text \<open>
  Modelled from the spec: \<^verbatim>\<open>SharedObject.dirty\<close>, the base-class method that \<open>set\<close> calls,
  is not among the sources; the spec has it mark the store dirty.
\<close>

definition dirty :: "SummarizableObject \<Rightarrow> unit completion" where
  "dirty this = (Inr (), this\<lparr>is_dirty := True\<rparr>)"

definition get :: "string \<Rightarrow> SummarizableObject \<Rightarrow> jsvalue completion" where
  "get key this = (Inr (Map_get (data this) key), this)"

text \<open>The method \<open>set\<close>.\<close>

definition set_value :: "string \<Rightarrow> jsvalue \<Rightarrow> SummarizableObject \<Rightarrow> unit completion" where
  "set_value key val this = dirty (this\<lparr>data := Map_set key val (data this)\<rparr>)"

text \<open>A run of calls of \<open>set\<close>, one for each pair of the list, in order.\<close>

definition set_all :: "(string \<times> jsvalue) list \<Rightarrow> SummarizableObject \<Rightarrow> SummarizableObject" where
  "set_all kvs this = foldl (\<lambda>this (key, val). snd (set_value key val this)) this kvs"

text \<open>
  The loop of \<open>snapshot\<close>: \<^verbatim>\<open>contentsBlob[key] = value\<close> for each entry of \<open>data\<close>, in the
  Map's order.
\<close>

fun copy_entries :: "(string \<times> jsvalue) list \<Rightarrow> OrdinaryObject \<Rightarrow> error + OrdinaryObject" where
  "copy_entries [] contentsBlob = Inr contentsBlob"
| "copy_entries ((key, val) # es) contentsBlob =
     (case OrdinarySet key val contentsBlob of
        Inl e \<Rightarrow> Inl e
      | Inr blob \<Rightarrow> copy_entries es blob)"

text \<open>
  \<open>snapshot\<close> copies the entries of \<open>data\<close> onto an empty object literal and puts the JSON
  text of that object in the one blob of the tree. An exception of \<^verbatim>\<open>JSON.stringify\<close> leaves
  the method; nothing is written to the object.
\<close>

definition snapshot :: "SummarizableObject \<Rightarrow> ITree completion" where
  "snapshot this =
     (case copy_entries (data this) empty_object of
        Inl e \<Rightarrow> (Inl e, this)
      | Inr contentsBlob \<Rightarrow>
          (case JSON_stringify_object contentsBlob of
             Inl e \<Rightarrow> (Inl e, this)
           | Inr text \<Rightarrow>
               (Inr (ITree
                  [ITreeEntry File snapshotFileName (TreeEntry_name Blob)
                     (BlobValue \<lparr>contents = text, encoding = ''utf-8''\<rparr>)]
                  None),
                this)))"




text \<open>The message type is left open: the method never looks at the message.\<close>

definition processCore :: "'message \<Rightarrow> bool \<Rightarrow> SummarizableObject \<Rightarrow> unit completion" where
  "processCore message local this = (Inl (Error ''Summarizable object should not generate any ops.''), this)"




text \<open>
  Modelled from the spec: the interface \<^verbatim>\<open>IObjectStorageService\<close> is declared outside the
  sources. The spec has \<open>read\<close> give the stored form of the blob of a name, or fail when
  there is none.
\<close>

record IObjectStorageService =
  read :: "string \<Rightarrow> error + string"

text \<open>
  \<open>loadCore\<close> takes the imported decoder \<^verbatim>\<open>fromBase64ToUtf8\<close> as its first argument. An
  exception of the read, of the decoder, of \<^verbatim>\<open>JSON.parse\<close> or of \<^verbatim>\<open>Object.entries\<close> leaves the
  method before the loop; the loop itself cannot throw.
\<close>

text \<open>The loop of \<open>loadCore\<close>: each entry is set in \<open>data\<close>, in order.\<close>

definition set_entries :: "(string \<times> jsvalue) list \<Rightarrow> SummarizableObject \<Rightarrow> SummarizableObject" where
  "set_entries es this = foldl (\<lambda>this (key, val). this\<lparr>data := Map_set key val (data this)\<rparr>) this es"

definition loadCore ::
  "(string \<Rightarrow> error + string) \<Rightarrow> string \<Rightarrow> IObjectStorageService \<Rightarrow> SummarizableObject \<Rightarrow> unit completion"
where
  "loadCore fromBase64ToUtf8 branchId storage this =
     (case read storage snapshotFileName of
        Inl e \<Rightarrow> (Inl e, this)
      | Inr rawContent \<Rightarrow>
          (case fromBase64ToUtf8 rawContent of
             Inl e \<Rightarrow> (Inl e, this)
           | Inr text \<Rightarrow>
               (case JSON_parse text of
                  Inl e \<Rightarrow> (Inl e, this)
                | Inr parsed \<Rightarrow>
                    (case Object_entries parsed of
                       Inl e \<Rightarrow> (Inl e, this)
                     | Inr es \<Rightarrow> (Inr (), set_entries es this)))))"

section \<open>Snapshot, store, load\<close>

text \<open>
  Modelled from the spec: the storage layer between a snapshot and a later load is not
  among the sources. The spec has it keep the blob of the tree under its path in the
  transport encoding, and fail to read a path that holds no blob.
\<close>

fun blob_at :: "string \<Rightarrow> ITreeEntry list \<Rightarrow> IBlob option" where
  "blob_at p [] = None"
| "blob_at p (e # es) =
     (if path e = p then (case entry_value e of BlobValue b \<Rightarrow> Some b | _ \<Rightarrow> None) else blob_at p es)"

definition storage_of :: "ITree \<Rightarrow> IObjectStorageService" where
  "storage_of tree =
     \<lparr>read = (\<lambda>p. case blob_at p (entries tree) of
                     None \<Rightarrow> Inl (Error ''not found'')
                   | Some b \<Rightarrow> Inr (utf8_to_base64 (contents b)))\<rparr>"

text \<open>
  Modelled from the spec: a storage that holds nothing, and one that holds a single blob,
  in its stored form, under the name of the snapshot file.
\<close>

definition empty_storage :: IObjectStorageService where
  "empty_storage = \<lparr>read = (\<lambda>p. Inl (Error ''not found''))\<rparr>"

definition storage_holding :: "string \<Rightarrow> IObjectStorageService" where
  "storage_holding raw =
     \<lparr>read = (\<lambda>p. if p = snapshotFileName then Inr raw else Inl (Error ''not found''))\<rparr>"

text \<open>
  The round trip: the blob of the snapshot of an object, transport-encoded as the storage
  layer does, is loaded into a new object through a storage reader that returns it.
\<close>

definition reload :: "SummarizableObject \<Rightarrow> unit completion" where
  "reload this =
     (case fst (snapshot this) of
        Inl e \<Rightarrow> (Inl e, new_SummarizableObject)
      | Inr tree \<Rightarrow> loadCore base64_to_utf8 [] (storage_of tree) new_SummarizableObject)"

section \<open>The values that survive the JSON text\<close>

text \<open>
  The predicates of the round trip. A value is in the model when it is JSON-representable
  (no \<^verbatim>\<open>undefined\<close>, BigInt or function anywhere), its numbers are safe integers, and the
  keys of each of its objects are distinct and in property order: array indices first,
  ascending, then the other keys. The fuel of a value is the depth of calls its text needs
  from the parser.
\<close>

text \<open>What may follow a number token.\<close>

definition number_end :: "string \<Rightarrow> bool" where
  "number_end rest \<longleftrightarrow>
     rest = [] \<or> (\<not> is_digit (hd rest) \<and> hd rest \<noteq> CHR ''.'' \<and> hd rest \<noteq> CHR ''e'' \<and> hd rest \<noteq> CHR ''E'')"

definition key_before :: "string \<Rightarrow> string \<Rightarrow> bool" where
  "key_before k k' \<longleftrightarrow>
     (case array_index k of
        None \<Rightarrow> array_index k' = None
      | Some n \<Rightarrow> (case array_index k' of None \<Rightarrow> True | Some n' \<Rightarrow> n \<le> n'))"

fun property_ordered :: "string list \<Rightarrow> bool" where
  "property_ordered [] = True"
| "property_ordered [k] = True"
| "property_ordered (k # k' # ks) = (key_before k k' \<and> property_ordered (k' # ks))"

definition wf_properties :: "(string \<times> jsvalue) list \<Rightarrow> bool" where
  "wf_properties ps \<longleftrightarrow> distinct (map fst ps) \<and> property_ordered (map fst ps)"

fun in_model :: "jsvalue \<Rightarrow> bool"
  and in_model_elements :: "jsvalue list \<Rightarrow> bool"
  and in_model_members :: "(string \<times> jsvalue) list \<Rightarrow> bool"
where
  "in_model JUndefined = False"
| "in_model JNull = True"
| "in_model (JBoolean b) = True"
| "in_model (JNumber n) = safe_integer n"
| "in_model (JBigInt n) = False"
| "in_model (JString s) = True"
| "in_model (JFunction f) = False"
| "in_model (JArray vs) = in_model_elements vs"
| "in_model (JObject ps) = (wf_properties ps \<and> in_model_members ps)"
| "in_model_elements [] = True"
| "in_model_elements (v # vs) = (in_model v \<and> in_model_elements vs)"
| "in_model_members [] = True"
| "in_model_members ((k, v) # ps) = (in_model v \<and> in_model_members ps)"

fun fuel_value :: "jsvalue \<Rightarrow> nat"
  and fuel_elements :: "jsvalue list \<Rightarrow> nat"
  and fuel_members :: "(string \<times> jsvalue) list \<Rightarrow> nat"
where
  "fuel_value (JArray vs) = Suc (fuel_elements vs)"
| "fuel_value (JObject ps) = Suc (fuel_members ps)"
| "fuel_value v = Suc 0"
| "fuel_elements [] = 0"
| "fuel_elements (v # vs) = Suc (fuel_value v + fuel_elements vs)"
| "fuel_members [] = 0"
| "fuel_members ((k, v) # ps) = Suc (fuel_value v + fuel_members ps)"

text \<open>What may follow a value in a text without white space, and how a value starts.\<close>

definition value_end :: "string \<Rightarrow> bool" where
  "value_end rest \<longleftrightarrow> rest = [] \<or> hd rest = CHR '','' \<or> hd rest = CHR '']'' \<or> hd rest = CHR ''}''"

definition value_start :: "string \<Rightarrow> bool" where
  "value_start s \<longleftrightarrow> s \<noteq> [] \<and> \<not> is_ws (hd s) \<and> hd s \<noteq> CHR '']'' \<and> hd s \<noteq> CHR ''}''"

text \<open>
  The text of a value, of the elements of an array and of the members of an object, parsed
  with enough fuel, gives the value back and leaves what follows the text.
\<close>

definition parses_back :: "jsvalue \<Rightarrow> bool" where
  "parses_back v \<longleftrightarrow>
     (\<exists>s. SerializeJSONProperty v = Inr (Some s) \<and> value_start s \<and>
        (\<forall>n rest. fuel_value v \<le> n \<longrightarrow> value_end rest \<longrightarrow> parse_value n (s @ rest) = Inr (v, rest)))"

definition elements_parse_back :: "jsvalue list \<Rightarrow> bool" where
  "elements_parse_back vs \<longleftrightarrow>
     (\<exists>ts. SerializeJSONArray vs = Inr ts \<and> value_start (join_comma ts) \<and>
        (\<forall>n rest. fuel_elements vs \<le> n \<longrightarrow>
           parse_elements n (join_comma ts @ CHR '']'' # rest) = Inr (vs, rest)))"

definition members_parse_back :: "(string \<times> jsvalue) list \<Rightarrow> bool" where
  "members_parse_back ps \<longleftrightarrow>
     (\<exists>ts. SerializeJSONObject ps = Inr ts \<and> value_start (join_comma ts) \<and>
        (\<forall>n rest. fuel_members ps \<le> n \<longrightarrow>
           parse_members n (join_comma ts @ CHR ''}'' # rest) = Inr (ps, rest)))"

section \<open>Properties\<close>

subsection \<open>The Map\<close>

lemma map_of_Map_set: "map_of (Map_set k v m) = (map_of m)(k \<mapsto> v)"
  by (induction m) auto

lemma Map_get_Map_set_same: "Map_get (Map_set k v m) k = v"
  by (simp add: Map_get_def map_of_Map_set)

lemma Map_get_Map_set_other: "k' \<noteq> k \<Longrightarrow> Map_get (Map_set k v m) k' = Map_get m k'"
  by (simp add: Map_get_def map_of_Map_set)

lemma keys_Map_set: "fst ` set (Map_set k v m) = insert k (fst ` set m)"
proof (induction m)
  case Nil
  show ?case by simp
next
  case (Cons p m)
  obtain k' v' where p: "p = (k', v')" by (cases p)
  show ?case
  proof (cases "k' = k")
    case True
    with p show ?thesis by auto
  next
    case False
    with p Cons.IH show ?thesis by (simp add: insert_commute)
  qed
qed

lemma Map_get_absent: "k \<notin> fst ` set m \<Longrightarrow> Map_get m k = JUndefined"
proof -
  assume "k \<notin> fst ` set m"
  then have "map_of m k = None" by (simp add: map_of_eq_None_iff)
  then show ?thesis by (simp add: Map_get_def)
qed

lemma Map_get_foldl_Map_set:
  "Map_get (foldl (\<lambda>m (k, v). Map_set k v m) m es) k
     = (case map_of (rev es) k of None \<Rightarrow> Map_get m k | Some v \<Rightarrow> v)"
proof (induction es arbitrary: m)
  case Nil
  show ?case by simp
next
  case (Cons e es)
  obtain k' v' where e: "e = (k', v')" by (cases e)
  show ?case
    by (simp add: e Cons.IH map_add_def Map_get_Map_set_same Map_get_Map_set_other
        split: option.split)
qed

lemma Map_set_fresh: "k \<notin> fst ` set m \<Longrightarrow> Map_set k v m = m @ [(k, v)]"
  by (induction m) auto

lemma foldl_Map_set_distinct:
  "distinct (map fst (m @ es)) \<Longrightarrow> foldl (\<lambda>m (k, v). Map_set k v m) m es = m @ es"
proof (induction es arbitrary: m)
  case Nil
  show ?case by simp
next
  case (Cons e es)
  obtain k v where e: "e = (k, v)" by (cases e)
  from Cons.prems e have fresh: "k \<notin> fst ` set m" by auto
  from Cons.prems e have "distinct (map fst ((m @ [(k, v)]) @ es))" by simp
  then have "foldl (\<lambda>m (k, v). Map_set k v m) (m @ [(k, v)]) es = (m @ [(k, v)]) @ es"
    by (rule Cons.IH)
  with fresh e show ?case by (simp add: Map_set_fresh)
qed

lemma distinct_Map_set: "distinct (map fst m) \<Longrightarrow> distinct (map fst (Map_set k v m))"
proof (induction m)
  case Nil
  show ?case by simp
next
  case (Cons p m)
  obtain k' v' where p: "p = (k', v')" by (cases p)
  from Cons.prems p have "k' \<notin> fst ` set m" "distinct (map fst m)" by auto
  with Cons.IH p show ?case by (auto simp: keys_Map_set)
qed

subsection \<open>processCore\<close>

text \<open>
  C4. Whatever message is delivered, flagged local or not, \<open>processCore\<close> throws its
  error (the protocol violation), and the object, the mapping with it, is as before the call.
\<close>

theorem processCore_rejects:
  "fst (processCore message local this) = Inl (Error ''Summarizable object should not generate any ops.'')
   \<and> snd (processCore message local this) = this
   \<and> data (snd (processCore message local this)) = data this"
  by (simp add: processCore_def)

subsection \<open>get and set\<close>

lemma data_set_all: "data (set_all kvs this) = foldl (\<lambda>m (k, v). Map_set k v m) (data this) kvs"
proof (induction kvs arbitrary: this)
  case Nil
  show ?case by (simp add: set_all_def)
next
  case (Cons kv kvs)
  obtain k v where kv: "kv = (k, v)" by (cases kv)
  have "set_all (kv # kvs) this = set_all kvs (snd (set_value k v this))"
    by (simp add: set_all_def kv)
  then show ?case by (simp add: Cons.IH kv set_value_def dirty_def)
qed

text \<open>
  C10. After \<open>set(key, value)\<close>, \<open>get(key)\<close> returns the value and \<open>get\<close> of any other
  key returns what it returned before. \<open>get\<close> never throws and leaves the object as it
  is; it returns the value the mapping holds for the key, and \<^verbatim>\<open>undefined\<close> for a key that
  is not in the mapping. After any run of calls of \<open>set\<close> it returns the value of the last
  call for the key, and what it returned before the run (\<^verbatim>\<open>undefined\<close> on a new object) for a
  key that was never set.
\<close>

theorem get_set_frame:
  "fst (set_value key val this) = Inr ()
   \<and> fst (get key (snd (set_value key val this))) = Inr val
   \<and> (k \<noteq> key \<longrightarrow> fst (get k (snd (set_value key val this))) = fst (get k this))
   \<and> snd (get k this) = this
   \<and> fst (get k this) = Inr (Map_get (data this) k)
   \<and> (k \<notin> fst ` set (data this) \<longrightarrow> fst (get k this) = Inr JUndefined)
   \<and> fst (get k new_SummarizableObject) = Inr JUndefined
   \<and> fst (get k (set_all kvs this))
       = (case map_of (rev kvs) k of None \<Rightarrow> fst (get k this) | Some v \<Rightarrow> Inr v)"
proof -
  have "Map_get [] k = JUndefined" by (simp add: Map_get_def)
  moreover have "fst (get k (set_all kvs this))
       = (case map_of (rev kvs) k of None \<Rightarrow> fst (get k this) | Some v \<Rightarrow> Inr v)"
    by (simp add: get_def data_set_all Map_get_foldl_Map_set split: option.split)
  ultimately show ?thesis
    by (simp add: get_def set_value_def dirty_def new_SummarizableObject_def
      Map_get_Map_set_same Map_get_Map_set_other Map_get_absent)
qed

theorem get_set_frame_witness:
  "''other'' \<noteq> ''count'' \<and> ''other'' \<notin> fst ` set (data new_SummarizableObject)
   \<and> fst (get ''count'' (snd (set_value ''count'' (JNumber 3) new_SummarizableObject))) = Inr (JNumber 3)
   \<and> fst (get ''other'' (snd (set_value ''count'' (JNumber 3) new_SummarizableObject))) = Inr JUndefined
   \<and> fst (get ''count'' (set_all [(''count'', JNumber 1), (''name'', JString ''a''), (''count'', JNumber 3)]
          new_SummarizableObject)) = Inr (JNumber 3)"
proof -
  let ?kvs = "[(''count'', JNumber 1), (''name'', JString ''a''), (''count'', JNumber 3)]"
  note frame = get_set_frame [of "''count''" "JNumber 3" new_SummarizableObject "''other''" ?kvs]
  note run = get_set_frame [of "''count''" "JNumber 3" new_SummarizableObject "''count''" ?kvs]
  have ne: "''other'' \<noteq> ''count''" by simp
  have absent: "''other'' \<notin> fst ` set (data new_SummarizableObject)"
    by (simp add: new_SummarizableObject_def)
  from frame have a: "fst (get ''count'' (snd (set_value ''count'' (JNumber 3) new_SummarizableObject))) = Inr (JNumber 3)"
    by blast
  from frame ne have "fst (get ''other'' (snd (set_value ''count'' (JNumber 3) new_SummarizableObject)))
      = fst (get ''other'' new_SummarizableObject)"
    by blast
  moreover from frame absent have "fst (get ''other'' new_SummarizableObject) = Inr JUndefined"
    by blast
  ultimately have b: "fst (get ''other'' (snd (set_value ''count'' (JNumber 3) new_SummarizableObject))) = Inr JUndefined"
    by (rule trans)
  from run have "fst (get ''count'' (set_all ?kvs new_SummarizableObject))
      = (case map_of (rev ?kvs) ''count'' of None \<Rightarrow> fst (get ''count'' new_SummarizableObject) | Some v \<Rightarrow> Inr v)"
    by blast
  then have c: "fst (get ''count'' (set_all ?kvs new_SummarizableObject)) = Inr (JNumber 3)"
    by simp
  from a b c ne absent show ?thesis by blast
qed

text \<open>
  C3 (as the code has it). \<open>set\<close> does not look at the value: for every key and every
  value, also one with no JSON form, it returns normally, the mapping holds the value under
  the key, \<open>get\<close> returns it afterwards, and the object is dirty.
\<close>

theorem set_accepts_every_value:
  "fst (set_value key val this) = Inr ()
   \<and> data (snd (set_value key val this)) = Map_set key val (data this)
   \<and> fst (get key (snd (set_value key val this))) = Inr val
   \<and> is_dirty (snd (set_value key val this))"
  by (simp add: set_value_def dirty_def get_def Map_get_def map_of_Map_set)

text \<open>
  The claim as stated fails for an array that holds \<^verbatim>\<open>undefined\<close>: the call returns
  normally, and both the mapping and the dirty flag have changed.
\<close>

theorem set_invalid_value_counterexample:
  "\<not> jsonable (JArray [JNumber 1, JUndefined])
   \<and> fst (set_value ''k'' (JArray [JNumber 1, JUndefined]) new_SummarizableObject) = Inr ()
   \<and> data (snd (set_value ''k'' (JArray [JNumber 1, JUndefined]) new_SummarizableObject))
       = [(''k'', JArray [JNumber 1, JUndefined])]
   \<and> data (snd (set_value ''k'' (JArray [JNumber 1, JUndefined]) new_SummarizableObject))
       \<noteq> data new_SummarizableObject
   \<and> is_dirty (snd (set_value ''k'' (JArray [JNumber 1, JUndefined]) new_SummarizableObject))
       \<noteq> is_dirty new_SummarizableObject"
  by (simp add: set_value_def dirty_def new_SummarizableObject_def)

subsection \<open>The dirty flag\<close>

text \<open>
  C7. A new object is not dirty; after a \<open>set\<close> that returned normally the object is
  dirty, whatever the flag was; \<open>get\<close> and \<open>snapshot\<close> leave the flag as it is.
\<close>

theorem dirty_monotone:
  "\<not> is_dirty new_SummarizableObject
   \<and> (fst (set_value key val this) = Inr () \<longrightarrow> is_dirty (snd (set_value key val this)))
   \<and> is_dirty (snd (get k this)) = is_dirty this
   \<and> is_dirty (snd (snapshot this)) = is_dirty this"
  by (simp add: new_SummarizableObject_def set_value_def dirty_def get_def snapshot_def split: sum.split)

theorem dirty_monotone_witness:
  "fst (set_value ''count'' (JNumber 3) new_SummarizableObject) = Inr ()
   \<and> \<not> is_dirty new_SummarizableObject
   \<and> is_dirty (snd (set_value ''count'' (JNumber 3) new_SummarizableObject))
   \<and> is_dirty (snd (snapshot (snd (set_value ''count'' (JNumber 3) new_SummarizableObject))))
   \<and> is_dirty (snd (get ''count'' (snd (set_value ''count'' (JNumber 3) new_SummarizableObject))))"
proof -
  let ?s = "snd (set_value ''count'' (JNumber 3) new_SummarizableObject)"
  have ok: "fst (set_value ''count'' (JNumber 3) new_SummarizableObject) = Inr ()"
    by (simp add: set_value_def dirty_def)
  from ok dirty_monotone [of "''count''" "JNumber 3" new_SummarizableObject "''count''"]
  have d: "is_dirty ?s" and n: "\<not> is_dirty new_SummarizableObject" by blast+
  from d dirty_monotone [of "''count''" "JNumber 3" ?s "''count''"]
  have "is_dirty (snd (snapshot ?s))" and "is_dirty (snd (get ''count'' ?s))" by blast+
  with ok d n show ?thesis by blast
qed

subsection \<open>snapshot\<close>

text \<open>
  C9. The snapshot of a new object is a tree of one entry whose blob holds the text
  \<^verbatim>\<open>{}\<close>.
\<close>

theorem empty_snapshot:
  "fst (snapshot new_SummarizableObject)
     = Inr (ITree [ITreeEntry File ''header'' ''Blob'' (BlobValue \<lparr>contents = ''{}'', encoding = ''utf-8''\<rparr>)] None)"
  by (simp add: snapshot_def new_SummarizableObject_def snapshotFileName_def empty_object_def
      JSON_stringify_object_def Get_toJSON_def)








text \<open>
  What a snapshot makes of values with no JSON form that \<open>set\<close> has stored: \<^verbatim>\<open>undefined\<close> and
  a function are written \<^verbatim>\<open>null\<close> in an array and left out of an object; a BigInt makes
  \<open>snapshot\<close> throw a \<^verbatim>\<open>TypeError\<close>; an object with a function \<^verbatim>\<open>toJSON\<close> has that function
  called, which is outside the model.
\<close>

lemma snapshot_of_values_without_JSON_form:
  \<open>fst (snapshot (snd (set_value ''k'' (JArray [JNumber 1, JUndefined, JFunction 0]) new_SummarizableObject)))
     = Inr (ITree [ITreeEntry File ''header'' ''Blob'' (BlobValue \<lparr>contents = ''{"k":[1,null,null]}'', encoding = ''utf-8''\<rparr>)] None)
   \<and> fst (snapshot (snd (set_value ''k'' (JFunction 0) new_SummarizableObject)))
     = Inr (ITree [ITreeEntry File ''header'' ''Blob'' (BlobValue \<lparr>contents = ''{}'', encoding = ''utf-8''\<rparr>)] None)
   \<and> fst (snapshot (snd (set_value ''k'' (JBigInt 1) new_SummarizableObject))) = Inl TypeError
   \<and> fst (snapshot (snd (set_value ''k'' (JObject [(''toJSON'', JFunction 0)]) new_SummarizableObject)))
     = Inl OutsideModel
   \<and> fst (snapshot (snd (set_value ''toJSON'' (JFunction 0) new_SummarizableObject))) = Inl OutsideModel
   \<and> fst (snapshot (snd (set_value ''__proto__'' (JObject [(''toJSON'', JFunction 0)]) new_SummarizableObject)))
     = Inl OutsideModel\<close>
  by code_simp

text \<open>
  The shape of the tree, for every object whose snapshot returns: one entry, a blob at the
  path \<^verbatim>\<open>header\<close>, its encoding tag \<^verbatim>\<open>utf-8\<close>. When no key is \<^verbatim>\<open>__proto__\<close>, the blob holds
  the text of the object that has every entry of the mapping as an own property.
\<close>

lemma snapshot_shape:
  "snd (snapshot this) = this
   \<and> (fst (snapshot this) = Inr tree \<longrightarrow>
        (\<exists>text. tree = ITree [ITreeEntry File ''header'' ''Blob'' (BlobValue \<lparr>contents = text, encoding = ''utf-8''\<rparr>)] None))"
  by (auto simp: snapshot_def snapshotFileName_def split: sum.splits)

lemma copy_entries_no_proto:
  "''__proto__'' \<notin> fst ` set es \<Longrightarrow>
   copy_entries es obj
     = Inr (obj\<lparr>properties := foldl (\<lambda>ps (k, v). CreateDataProperty k v ps) (properties obj) es\<rparr>)"
proof (induction es arbitrary: obj)
  case Nil
  show ?case by simp
next
  case (Cons e es)
  obtain k v where e: "e = (k, v)" by (cases e)
  from Cons.prems e have "k \<noteq> ''__proto__''" and "''__proto__'' \<notin> fst ` set es" by auto
  with Cons.IH e show ?case by (simp add: OrdinarySet_def)
qed

lemma snapshot_contents_no_proto:
  assumes "''__proto__'' \<notin> fst ` set (data this)"
    and "JSON_stringify_object
           \<lparr>prototype_slot = ObjectPrototype,
            properties = foldl (\<lambda>ps (k, v). CreateDataProperty k v ps) [] (data this)\<rparr> = Inr text"
  shows "fst (snapshot this)
     = Inr (ITree [ITreeEntry File ''header'' ''Blob'' (BlobValue \<lparr>contents = text, encoding = ''utf-8''\<rparr>)] None)"
  using assms by (simp add: snapshot_def snapshotFileName_def copy_entries_no_proto empty_object_def)

text \<open>
  C2, at an object that holds the key \<^verbatim>\<open>__proto__\<close>: the tree has the shape the claim
  gives it, but its blob holds \<^verbatim>\<open>{}\<close>, not the text of the whole mapping: the entry is
  missing from it.
\<close>

theorem snapshot_omits_proto_entry:
  \<open>data (snd (set_value ''__proto__'' (JNumber 1) new_SummarizableObject)) = [(''__proto__'', JNumber 1)]
   \<and> fst (snapshot (snd (set_value ''__proto__'' (JNumber 1) new_SummarizableObject)))
     = Inr (ITree [ITreeEntry File ''header'' ''Blob'' (BlobValue \<lparr>contents = ''{}'', encoding = ''utf-8''\<rparr>)] None)
   \<and> JSON_stringify (JObject [(''__proto__'', JNumber 1)]) = Inr (Some ''{"__proto__":1}'')\<close>
  by code_simp

subsection \<open>The fuel of the parser\<close>

text \<open>
  A parser call that succeeds leaves no more text than it was given, and each further call
  comes after at least one character was read; so fuel of twice the length of the text is
  never used up.
\<close>

lemma length_skip_ws: "length (skip_ws s) \<le> length s"
  by (simp add: skip_ws_def length_dropWhile_le)

lemma cons_char_Inr: "cons_char c r = Inr (str, rest) \<Longrightarrow> \<exists>str'. r = Inr (str', rest)"
  by (auto simp: cons_char_def split: sum.splits)

lemma cons_char_Inl: "cons_char c r = Inl e \<Longrightarrow> r = Inl e"
  by (auto simp: cons_char_def split: sum.splits)

lemma parse_string_chars_step:
  assumes "parse_string_chars (c # cs) = Inr (str, r)"
  shows "r = cs \<or> (\<exists>t str'. length t \<le> length cs \<and> parse_string_chars t = Inr (str', r))"
proof (cases "c = CHR 0x22")
  case True
  with assms show ?thesis by simp
next
  case q: False
  show ?thesis
  proof (cases "c = CHR 0x5C")
    case False
    with q assms have "cons_char c (parse_string_chars cs) = Inr (str, r)"
      by (simp split: if_splits)
    then show ?thesis using cons_char_Inr by blast
  next
    case True
    with q assms obtain e cs' where cs: "cs = e # cs'" by (cases cs) auto
    show ?thesis
    proof (cases "e = CHR ''u''")
      case False
      with q True cs assms obtain ch where "cons_char ch (parse_string_chars cs') = Inr (str, r)"
        by (simp split: option.splits)
      then obtain str' where "parse_string_chars cs' = Inr (str', r)" using cons_char_Inr by blast
      with cs show ?thesis by (intro disjI2 exI [of _ cs'] exI [of _ str']) simp
    next
      case u: True
      from q True cs u assms obtain h1 h2 h3 h4 cs'' ch where
        cs': "cs' = h1 # h2 # h3 # h4 # cs''"
        and c: "cons_char ch (parse_string_chars cs'') = Inr (str, r)"
        by (auto split: list.splits option.splits if_splits)
      from c obtain str' where "parse_string_chars cs'' = Inr (str', r)" using cons_char_Inr by blast
      with cs cs' show ?thesis by (intro disjI2 exI [of _ cs''] exI [of _ str']) simp
    qed
  qed
qed

lemma parse_string_chars_rest:
  "parse_string_chars s = Inr (str, r) \<Longrightarrow> length r < length s"
proof (induction "length s" arbitrary: s str rule: less_induct)
  case less
  from less.prems obtain c cs where s: "s = c # cs" by (cases s) auto
  from parse_string_chars_step [of c cs str r] less.prems s
  consider "r = cs" | t str' where "length t \<le> length cs" "parse_string_chars t = Inr (str', r)"
    by blast
  then show ?case
  proof cases
    case 1
    with s show ?thesis by simp
  next
    case 2
    from 2(1) s have "length t < length s" by simp
    from less.hyps [OF this 2(2)] 2(1) s show ?thesis by simp
  qed
qed

lemma parse_string_chars_fail_step:
  assumes "parse_string_chars (c # cs) = Inl e"
  shows "e = SyntaxError \<or> e = OutsideModel \<or> (\<exists>t. length t \<le> length cs \<and> parse_string_chars t = Inl e)"
proof (cases "c = CHR 0x22")
  case True
  with assms show ?thesis by simp
next
  case q: False
  show ?thesis
  proof (cases "c = CHR 0x5C")
    case False
    with q assms have "e = SyntaxError \<or> cons_char c (parse_string_chars cs) = Inl e"
      by (simp split: if_splits)
    then show ?thesis using cons_char_Inl by blast
  next
    case True
    show ?thesis
    proof (cases cs)
      case Nil
      with q True assms show ?thesis by simp
    next
      case (Cons x cs')
      show ?thesis
      proof (cases "x = CHR ''u''")
        case False
        with q True Cons assms have "e = SyntaxError \<or> (\<exists>ch. cons_char ch (parse_string_chars cs') = Inl e)"
          by (auto split: option.splits)
        then have "e = SyntaxError \<or> parse_string_chars cs' = Inl e" using cons_char_Inl by blast
        with Cons show ?thesis by (auto intro: exI [of _ cs'])
      next
        case u: True
        from q True Cons u assms have "e = SyntaxError \<or> e = OutsideModel
            \<or> (\<exists>h1 h2 h3 h4 cs'' ch. cs' = h1 # h2 # h3 # h4 # cs'' \<and> cons_char ch (parse_string_chars cs'') = Inl e)"
          by (auto split: list.splits option.splits if_splits)
        then consider "e = SyntaxError \<or> e = OutsideModel"
          | h1 h2 h3 h4 cs'' where "cs' = h1 # h2 # h3 # h4 # cs''" "parse_string_chars cs'' = Inl e"
          using cons_char_Inl by blast
        then show ?thesis
        proof cases
          case 1
          then show ?thesis by blast
        next
          case 2
          with Cons show ?thesis by (intro disjI2 exI [of _ cs'']) simp
        qed
      qed
    qed
  qed
qed

lemma parse_string_chars_fuel: "parse_string_chars s \<noteq> Inl OutOfFuel"
proof (induction "length s" arbitrary: s rule: less_induct)
  case less
  show ?case
  proof (cases s)
    case Nil
    then show ?thesis by simp
  next
    case (Cons c cs)
    show ?thesis
    proof
      assume "parse_string_chars s = Inl OutOfFuel"
      with Cons parse_string_chars_fail_step [of c cs OutOfFuel]
      obtain t where "length t \<le> length cs" "parse_string_chars t = Inl OutOfFuel" by auto
      with less.hyps [of t] Cons show False by simp
    qed
  qed
qed

lemma parse_number_rest: "parse_number s = Inr (v, r) \<Longrightarrow> length r \<le> length s"
proof -
  assume a: "parse_number s = Inr (v, r)"
  define s1 where "s1 = (if s \<noteq> [] \<and> hd s = CHR ''-'' then tl s else s)"
  from a have "r = dropWhile is_digit s1"
    by (auto simp add: parse_number_def Let_def s1_def split: if_splits)
  moreover have "length s1 \<le> length s" by (simp add: s1_def)
  moreover have "length (dropWhile is_digit s1) \<le> length s1" by (rule length_dropWhile_le)
  ultimately show ?thesis by simp
qed

lemma parse_number_fuel: "parse_number s \<noteq> Inl OutOfFuel"
  by (simp add: parse_number_def Let_def)

lemma parse_value_Suc_Inr:
  assumes "parse_value (Suc n) s = Inr (v, r)"
  shows "\<exists>c cs. s = c # cs \<and>
      (r = tl (skip_ws cs)
       \<or> (\<exists>ms. parse_members n (skip_ws cs) = Inr (ms, r))
       \<or> (\<exists>vs. parse_elements n (skip_ws cs) = Inr (vs, r))
       \<or> (\<exists>str. parse_string_chars cs = Inr (str, r))
       \<or> (\<exists>w. parse_number s = Inr (w, r))
       \<or> r = drop 4 s \<or> r = drop 5 s)"
proof (cases s)
  case Nil
  with assms show ?thesis by simp
next
  case (Cons c cs)
  show ?thesis
  proof (cases "c = CHR ''{''")
    case True
    with assms Cons show ?thesis by (auto split: if_splits sum.splits prod.splits)
  next
    case f1: False
    show ?thesis
    proof (cases "c = CHR ''[''")
      case True
      with f1 assms Cons show ?thesis by (auto split: if_splits sum.splits prod.splits)
    next
      case f2: False
      show ?thesis
      proof (cases "c = CHR 0x22")
        case True
        with f1 f2 assms Cons show ?thesis by (auto split: sum.splits prod.splits)
      next
        case f3: False
        show ?thesis
        proof (cases "c = CHR ''-'' \<or> is_digit c")
          case True
          with f1 f2 f3 assms Cons have "parse_number s = Inr (v, r)" by auto
          with Cons show ?thesis by blast
        next
          case False
          with f1 f2 f3 assms Cons have "r = drop 4 s \<or> r = drop 5 s"
            by (auto split: if_splits)
          with Cons show ?thesis by blast
        qed
      qed
    qed
  qed
qed

lemma parse_value_Suc_fuel:
  assumes "parse_value (Suc n) s = Inl OutOfFuel"
  shows "\<exists>c cs. s = c # cs \<and>
      (parse_members n (skip_ws cs) = Inl OutOfFuel \<or> parse_elements n (skip_ws cs) = Inl OutOfFuel)"
proof (cases s)
  case Nil
  with assms show ?thesis by simp
next
  case (Cons c cs)
  show ?thesis
  proof (cases "c = CHR ''{''")
    case True
    with assms Cons show ?thesis by (auto split: if_splits sum.splits prod.splits)
  next
    case f1: False
    show ?thesis
    proof (cases "c = CHR ''[''")
      case True
      with f1 assms Cons show ?thesis by (auto split: if_splits sum.splits prod.splits)
    next
      case f2: False
      show ?thesis
      proof (cases "c = CHR 0x22")
        case True
        with f1 f2 assms Cons parse_string_chars_fuel [of cs] show ?thesis
          by (auto split: sum.splits prod.splits)
      next
        case f3: False
        show ?thesis
        proof (cases "c = CHR ''-'' \<or> is_digit c")
          case True
          with f1 f2 f3 assms Cons have "parse_number s = Inl OutOfFuel" by auto
          with parse_number_fuel show ?thesis by blast
        next
          case False
          with f1 f2 f3 assms Cons show ?thesis by (auto split: if_splits)
        qed
      qed
    qed
  qed
qed

lemma parse_elements_Suc_Inr:
  assumes "parse_elements (Suc n) s = Inr (vs, r)"
  shows "\<exists>v r0 c r'. parse_value n s = Inr (v, r0) \<and> skip_ws r0 = c # r'
      \<and> (r = r' \<or> (\<exists>vs'. parse_elements n (skip_ws r') = Inr (vs', r)))"
  using assms by (auto split: sum.splits prod.splits list.splits if_splits)

lemma parse_elements_Suc_fuel:
  assumes "parse_elements (Suc n) s = Inl OutOfFuel"
  shows "parse_value n s = Inl OutOfFuel
      \<or> (\<exists>v r0 c r'. parse_value n s = Inr (v, r0) \<and> skip_ws r0 = c # r'
            \<and> parse_elements n (skip_ws r') = Inl OutOfFuel)"
  using assms by (auto split: sum.splits prod.splits list.splits if_splits)

lemma parse_members_Suc_Inr:
  assumes "parse_members (Suc n) s = Inr (ms, r)"
  shows "\<exists>q cs k r0 c r1 v r2 d r3. s = q # cs \<and> parse_string_chars cs = Inr (k, r0)
      \<and> skip_ws r0 = c # r1 \<and> parse_value n (skip_ws r1) = Inr (v, r2) \<and> skip_ws r2 = d # r3
      \<and> (r = r3 \<or> (\<exists>ms'. parse_members n (skip_ws r3) = Inr (ms', r)))"
  using assms by (auto split: sum.splits prod.splits list.splits if_splits)

lemma parse_members_Suc_fuel:
  assumes "parse_members (Suc n) s = Inl OutOfFuel"
  shows "\<exists>q cs k r0 c r1. s = q # cs \<and> parse_string_chars cs = Inr (k, r0) \<and> skip_ws r0 = c # r1
      \<and> (parse_value n (skip_ws r1) = Inl OutOfFuel
          \<or> (\<exists>v r2 d r3. parse_value n (skip_ws r1) = Inr (v, r2) \<and> skip_ws r2 = d # r3
                \<and> parse_members n (skip_ws r3) = Inl OutOfFuel))"
proof -
  from assms obtain q cs where s: "s = q # cs" by (cases s) auto
  from assms s have "parse_string_chars cs \<noteq> Inl OutOfFuel \<longrightarrow> (\<exists>k r0. parse_string_chars cs = Inr (k, r0))"
    by (cases "parse_string_chars cs") (auto split: if_splits)
  with parse_string_chars_fuel obtain k r0 where k: "parse_string_chars cs = Inr (k, r0)" by blast
  from assms s k show ?thesis
    by (auto split: sum.splits prod.splits list.splits if_splits)
qed

lemma length_skip_ws_Cons: "skip_ws r = c # r' \<Longrightarrow> length r' < length r"
  using length_skip_ws [of r] by simp

lemma parse_rest:
  "(\<forall>s v r. parse_value n s = Inr (v, r) \<longrightarrow> length r \<le> length s)
   \<and> (\<forall>s vs r. parse_elements n s = Inr (vs, r) \<longrightarrow> length r \<le> length s)
   \<and> (\<forall>s ms r. parse_members n s = Inr (ms, r) \<longrightarrow> length r \<le> length s)"
proof (induction n)
  case 0
  show ?case by simp
next
  case (Suc n)
  then have v: "\<And>s v r. parse_value n s = Inr (v, r) \<Longrightarrow> length r \<le> length s"
    and e: "\<And>s vs r. parse_elements n s = Inr (vs, r) \<Longrightarrow> length r \<le> length s"
    and m: "\<And>s ms r. parse_members n s = Inr (ms, r) \<Longrightarrow> length r \<le> length s"
    by blast+
  have V: "length r \<le> length s" if "parse_value (Suc n) s = Inr (w, r)" for s w r
  proof -
    from parse_value_Suc_Inr [OF that] obtain c cs where s: "s = c # cs"
      and alt: "r = tl (skip_ws cs)
       \<or> (\<exists>ms. parse_members n (skip_ws cs) = Inr (ms, r))
       \<or> (\<exists>vs. parse_elements n (skip_ws cs) = Inr (vs, r))
       \<or> (\<exists>str. parse_string_chars cs = Inr (str, r))
       \<or> (\<exists>w. parse_number s = Inr (w, r))
       \<or> r = drop 4 s \<or> r = drop 5 s" by blast
    have sk: "length (skip_ws cs) \<le> length cs" by (rule length_skip_ws)
    from alt consider "r = tl (skip_ws cs)"
      | ms where "parse_members n (skip_ws cs) = Inr (ms, r)"
      | vs where "parse_elements n (skip_ws cs) = Inr (vs, r)"
      | str where "parse_string_chars cs = Inr (str, r)"
      | w where "parse_number s = Inr (w, r)"
      | "r = drop 4 s \<or> r = drop 5 s" by blast
    then show ?thesis
    proof cases
      case 1
      with sk s show ?thesis by simp
    next
      case 2
      from m [OF 2] sk s show ?thesis by simp
    next
      case 3
      from e [OF 3] sk s show ?thesis by simp
    next
      case 4
      from parse_string_chars_rest [OF 4] s show ?thesis by simp
    next
      case 5
      then show ?thesis by (rule parse_number_rest)
    next
      case 6
      then show ?thesis by auto
    qed
  qed
  have E: "length r \<le> length s" if "parse_elements (Suc n) s = Inr (vs, r)" for s vs r
  proof -
    from parse_elements_Suc_Inr [OF that] obtain w r0 c r' where
      a: "parse_value n s = Inr (w, r0)" and b: "skip_ws r0 = c # r'"
      and alt: "r = r' \<or> (\<exists>vs'. parse_elements n (skip_ws r') = Inr (vs', r))" by blast
    from v [OF a] length_skip_ws_Cons [OF b] have l: "length r' < length s" by simp
    from alt show ?thesis
    proof
      assume "r = r'"
      with l show ?thesis by simp
    next
      assume "\<exists>vs'. parse_elements n (skip_ws r') = Inr (vs', r)"
      then obtain vs' where "parse_elements n (skip_ws r') = Inr (vs', r)" by blast
      from e [OF this] length_skip_ws [of r'] l show ?thesis by simp
    qed
  qed
  have M: "length r \<le> length s" if "parse_members (Suc n) s = Inr (ms, r)" for s ms r
  proof -
    from parse_members_Suc_Inr [OF that] obtain q cs k r0 c r1 w r2 d r3 where
      s: "s = q # cs" and a: "parse_string_chars cs = Inr (k, r0)"
      and b: "skip_ws r0 = c # r1" and c: "parse_value n (skip_ws r1) = Inr (w, r2)"
      and d: "skip_ws r2 = d # r3"
      and alt: "r = r3 \<or> (\<exists>ms'. parse_members n (skip_ws r3) = Inr (ms', r))" by blast
    from parse_string_chars_rest [OF a] length_skip_ws_Cons [OF b] s have "length r1 < length s" by simp
    with v [OF c] length_skip_ws [of r1] have "length r2 < length s" by simp
    with length_skip_ws_Cons [OF d] have l: "length r3 < length s" by simp
    from alt show ?thesis
    proof
      assume "r = r3"
      with l show ?thesis by simp
    next
      assume "\<exists>ms'. parse_members n (skip_ws r3) = Inr (ms', r)"
      then obtain ms' where "parse_members n (skip_ws r3) = Inr (ms', r)" by blast
      from m [OF this] length_skip_ws [of r3] l show ?thesis by simp
    qed
  qed
  from V E M show ?case by blast
qed

lemma parse_value_rest: "parse_value n s = Inr (v, r) \<Longrightarrow> length r \<le> length s"
  using parse_rest [of n] by blast

lemma parse_fuel:
  "(\<forall>s. 2 * length s < n \<longrightarrow> parse_value n s \<noteq> Inl OutOfFuel)
   \<and> (\<forall>s. 2 * length s + 1 < n \<longrightarrow> parse_elements n s \<noteq> Inl OutOfFuel)
   \<and> (\<forall>s. 2 * length s + 1 < n \<longrightarrow> parse_members n s \<noteq> Inl OutOfFuel)"
proof (induction n)
  case 0
  show ?case by simp
next
  case (Suc n)
  then have v: "\<And>s. 2 * length s < n \<Longrightarrow> parse_value n s \<noteq> Inl OutOfFuel"
    and e: "\<And>s. 2 * length s + 1 < n \<Longrightarrow> parse_elements n s \<noteq> Inl OutOfFuel"
    and m: "\<And>s. 2 * length s + 1 < n \<Longrightarrow> parse_members n s \<noteq> Inl OutOfFuel"
    by blast+
  have V: "parse_value (Suc n) s \<noteq> Inl OutOfFuel" if f: "2 * length s < Suc n" for s
  proof
    assume "parse_value (Suc n) s = Inl OutOfFuel"
    from parse_value_Suc_fuel [OF this] obtain c cs where s: "s = c # cs"
      and alt: "parse_members n (skip_ws cs) = Inl OutOfFuel \<or> parse_elements n (skip_ws cs) = Inl OutOfFuel"
      by blast
    from f s length_skip_ws [of cs] have "2 * length (skip_ws cs) + 1 < n" by simp
    with m [of "skip_ws cs"] e [of "skip_ws cs"] alt show False by blast
  qed
  have E: "parse_elements (Suc n) s \<noteq> Inl OutOfFuel" if f: "2 * length s + 1 < Suc n" for s
  proof
    assume "parse_elements (Suc n) s = Inl OutOfFuel"
    from parse_elements_Suc_fuel [OF this] f v [of s]
    obtain w r0 c r' where a: "parse_value n s = Inr (w, r0)" and b: "skip_ws r0 = c # r'"
      and c: "parse_elements n (skip_ws r') = Inl OutOfFuel" by auto
    from parse_value_rest [OF a] length_skip_ws_Cons [OF b] have "length r' < length s" by simp
    with f length_skip_ws [of r'] have "2 * length (skip_ws r') + 1 < n" by simp
    with e [of "skip_ws r'"] c show False by blast
  qed
  have M: "parse_members (Suc n) s \<noteq> Inl OutOfFuel" if f: "2 * length s + 1 < Suc n" for s
  proof
    assume "parse_members (Suc n) s = Inl OutOfFuel"
    from parse_members_Suc_fuel [OF this] obtain q cs k r0 c r1 where
      s: "s = q # cs" and a: "parse_string_chars cs = Inr (k, r0)" and b: "skip_ws r0 = c # r1"
      and alt: "parse_value n (skip_ws r1) = Inl OutOfFuel
          \<or> (\<exists>w r2 d r3. parse_value n (skip_ws r1) = Inr (w, r2) \<and> skip_ws r2 = d # r3
                \<and> parse_members n (skip_ws r3) = Inl OutOfFuel)" by blast
    from parse_string_chars_rest [OF a] length_skip_ws_Cons [OF b] s have l1: "length r1 + 2 < length s" by simp
    with f length_skip_ws [of r1] have "2 * length (skip_ws r1) < n" by simp
    with v [of "skip_ws r1"] alt obtain w r2 d r3 where
      c: "parse_value n (skip_ws r1) = Inr (w, r2)" and d: "skip_ws r2 = d # r3"
      and x: "parse_members n (skip_ws r3) = Inl OutOfFuel" by blast
    from parse_value_rest [OF c] length_skip_ws [of r1] l1 have "length r2 + 2 < length s" by simp
    with length_skip_ws_Cons [OF d] have "length r3 + 2 < length s" by simp
    with f length_skip_ws [of r3] have "2 * length (skip_ws r3) + 1 < n" by simp
    with m [of "skip_ws r3"] x show False by blast
  qed
  from V E M show ?case by blast
qed

text \<open>The fuel that \<open>JSON_parse\<close> gives the descent is enough for every text.\<close>

theorem JSON_parse_fuel: "JSON_parse text \<noteq> Inl OutOfFuel"
proof -
  have "2 * length (skip_ws text) < 2 * length text + 1"
    using length_skip_ws [of "text"] by simp
  with parse_fuel [of "2 * length text + 1"]
  have "parse_value (2 * length text + 1) (skip_ws text) \<noteq> Inl OutOfFuel" by blast
  then show ?thesis
    by (auto simp: JSON_parse_def simp del: parse_value.simps split: sum.splits prod.splits)
qed

subsection \<open>loadCore\<close>

lemma set_entries_Nil: "set_entries [] this = this"
  by (simp add: set_entries_def)

lemma set_entries_Cons: "set_entries ((k, v) # es) this = set_entries es (this\<lparr>data := Map_set k v (data this)\<rparr>)"
  by (simp add: set_entries_def)

lemma data_set_entries:
  "data (set_entries es this) = foldl (\<lambda>m (k, v). Map_set k v m) (data this) es"
proof (induction es arbitrary: this)
  case Nil
  show ?case by (simp add: set_entries_Nil)
next
  case (Cons e es)
  obtain k v where e: "e = (k, v)" by (cases e)
  show ?case unfolding e set_entries_Cons Cons.IH by simp
qed

lemma is_dirty_set_entries: "is_dirty (set_entries es this) = is_dirty this"
proof (induction es arbitrary: this)
  case Nil
  show ?case by (simp add: set_entries_Nil)
next
  case (Cons e es)
  obtain k v where e: "e = (k, v)" by (cases e)
  show ?case unfolding e set_entries_Cons Cons.IH by simp
qed

lemma keys_update_property: "map fst (update_property k v ps) = map fst ps"
  by (induction ps) (auto simp: update_property_def)

lemma keys_insert_property: "fst ` set (insert_property k v ps) = insert k (fst ` set ps)"
proof (induction ps)
  case Nil
  show ?case by simp
next
  case (Cons p ps)
  obtain k' v' where p: "p = (k', v')" by (cases p)
  show ?case
  proof (cases "array_index k")
    case None
    with p Cons.IH show ?thesis by (simp add: insert_commute)
  next
    case (Some n)
    show ?thesis
    proof (cases "array_index k'")
      case None
      with Some p show ?thesis by simp
    next
      case (Some n')
      with \<open>array_index k = Some n\<close> p Cons.IH show ?thesis
        by (cases "n < n'") (simp_all add: insert_commute)
    qed
  qed
qed

lemma distinct_insert_property:
  "k \<notin> fst ` set ps \<Longrightarrow> distinct (map fst ps) \<Longrightarrow> distinct (map fst (insert_property k v ps))"
proof (induction ps)
  case Nil
  show ?case by simp
next
  case (Cons p ps)
  obtain k' v' where p: "p = (k', v')" by (cases p)
  from Cons.prems p have IH: "distinct (map fst (insert_property k v ps))"
    by (intro Cons.IH) auto
  from Cons.prems p have notin: "k' \<notin> fst ` set (insert_property k v ps)"
    unfolding keys_insert_property by auto
  from Cons.prems p have old: "k \<noteq> k'" "k \<notin> fst ` set ps" "k' \<notin> fst ` set ps" "distinct (map fst ps)"
    by auto
  show ?case
  proof (cases "array_index k")
    case None
    with p IH notin show ?thesis by simp
  next
    case (Some n)
    show ?thesis
    proof (cases "array_index k'")
      case None
      with Some p old show ?thesis by simp
    next
      case (Some n')
      with \<open>array_index k = Some n\<close> p old IH notin show ?thesis
        by (cases "n < n'") simp_all
    qed
  qed
qed

lemma distinct_CreateDataProperty:
  "distinct (map fst ps) \<Longrightarrow> distinct (map fst (CreateDataProperty k v ps))"
  by (simp add: CreateDataProperty_def keys_update_property distinct_insert_property)

lemma distinct_foldl_CreateDataProperty:
  "distinct (map fst ps) \<Longrightarrow> distinct (map fst (foldl (\<lambda>ps (k, v). CreateDataProperty k v ps) ps ms))"
  by (induction ms arbitrary: ps) (auto simp: distinct_CreateDataProperty)

lemma parse_number_not_object: "parse_number s \<noteq> Inr (JObject ps, r)"
  by (simp add: parse_number_def Let_def)

lemma parse_value_object_distinct:
  assumes "parse_value n s = Inr (JObject ps, r)"
  shows "distinct (map fst ps)"
proof (cases n)
  case 0
  with assms show ?thesis by simp
next
  case (Suc m)
  show ?thesis
  proof (cases s)
    case Nil
    with assms Suc show ?thesis by simp
  next
    case (Cons c cs)
    show ?thesis
    proof (cases "c = CHR ''{''")
      case True
      with assms Suc Cons show ?thesis
        by (auto simp: distinct_foldl_CreateDataProperty split: if_splits sum.splits prod.splits)
    next
      case False
      with assms Suc Cons parse_number_not_object [of s ps r] show ?thesis
        by (simp split: if_splits sum.splits prod.splits)
    qed
  qed
qed

lemma JSON_parse_object_distinct:
  assumes "JSON_parse text = Inr (JObject ps)"
  shows "distinct (map fst ps)"
proof -
  from assms obtain r where "parse_value (2 * length text + 1) (skip_ws text) = Inr (JObject ps, r)"
    unfolding JSON_parse_def by (auto split: sum.splits prod.splits if_splits simp del: parse_value.simps)
  then show ?thesis by (rule parse_value_object_distinct)
qed

lemma parse_number_defined: "parse_number s \<noteq> Inr (JUndefined, r)"
  by (simp add: parse_number_def Let_def)

lemma parse_value_defined:
  assumes "parse_value n s = Inr (v, r)"
  shows "v \<noteq> JUndefined"
proof (cases n)
  case 0
  with assms show ?thesis by simp
next
  case (Suc m)
  show ?thesis
  proof (cases s)
    case Nil
    with assms Suc show ?thesis by simp
  next
    case (Cons c cs)
    show ?thesis
    proof (cases "c = CHR ''{'' \<or> c = CHR ''['' \<or> c = CHR 0x22")
      case True
      with assms Suc Cons show ?thesis
        by (auto split: if_splits sum.splits prod.splits)
    next
      case False
      with assms Suc Cons parse_number_defined [of s r] show ?thesis
        by (auto split: if_splits)
    qed
  qed
qed

lemma JSON_parse_defined: "JSON_parse text \<noteq> Inr JUndefined"
proof
  assume "JSON_parse text = Inr JUndefined"
  then obtain r where "parse_value (2 * length text + 1) (skip_ws text) = Inr (JUndefined, r)"
    unfolding JSON_parse_def by (auto split: sum.splits prod.splits if_splits simp del: parse_value.simps)
  with parse_value_defined show False by blast
qed

lemma Object_entries_ok: "v \<noteq> JNull \<Longrightarrow> v \<noteq> JUndefined \<Longrightarrow> \<exists>es. Object_entries v = Inr es"
  by (cases v) simp_all

text \<open>
  C5 (as the code has it). When the read fails, or the decoder fails, or the text is not
  valid JSON, or is the JSON text \<^verbatim>\<open>null\<close>, \<open>loadCore\<close> throws that error (the
  \<^verbatim>\<open>TypeError\<close> of \<^verbatim>\<open>Object.entries\<close> for \<^verbatim>\<open>null\<close>) and the object is as before the call.
  When the text parses to any other value, an object or not, \<open>loadCore\<close> returns normally.
\<close>

theorem load_failure_keeps_store:
  "(read storage snapshotFileName = Inl e
     \<or> (\<exists>raw. read storage snapshotFileName = Inr raw \<and> decoder raw = Inl e)
     \<or> (\<exists>raw text. read storage snapshotFileName = Inr raw \<and> decoder raw = Inr text
            \<and> JSON_parse text = Inl SyntaxError \<and> e = SyntaxError)
     \<or> (\<exists>raw text. read storage snapshotFileName = Inr raw \<and> decoder raw = Inr text
            \<and> JSON_parse text = Inr JNull \<and> e = TypeError)
     \<longrightarrow> loadCore decoder branchId storage this = (Inl e, this))
   \<and> (read storage snapshotFileName = Inr raw \<and> decoder raw = Inr text
        \<and> JSON_parse text = Inr parsed \<and> parsed \<noteq> JNull
     \<longrightarrow> fst (loadCore decoder branchId storage this) = Inr ())"
proof (intro conjI impI)
  assume "read storage snapshotFileName = Inl e
     \<or> (\<exists>raw. read storage snapshotFileName = Inr raw \<and> decoder raw = Inl e)
     \<or> (\<exists>raw text. read storage snapshotFileName = Inr raw \<and> decoder raw = Inr text
            \<and> JSON_parse text = Inl SyntaxError \<and> e = SyntaxError)
     \<or> (\<exists>raw text. read storage snapshotFileName = Inr raw \<and> decoder raw = Inr text
            \<and> JSON_parse text = Inr JNull \<and> e = TypeError)"
  then show "loadCore decoder branchId storage this = (Inl e, this)"
    by (auto simp: loadCore_def)
next
  assume a: "read storage snapshotFileName = Inr raw \<and> decoder raw = Inr text
        \<and> JSON_parse text = Inr parsed \<and> parsed \<noteq> JNull"
  with JSON_parse_defined [of "text"] have "parsed \<noteq> JUndefined" by auto
  with a obtain es where "Object_entries parsed = Inr es" using Object_entries_ok by blast
  with a show "fst (loadCore decoder branchId storage this) = Inr ()"
    by (simp add: loadCore_def)
qed

theorem load_failure_keeps_store_witness:
  "loadCore base64_to_utf8 [] empty_storage new_SummarizableObject
     = (Inl (Error ''not found''), new_SummarizableObject)
   \<and> loadCore base64_to_utf8 [] (storage_holding ''e30'') new_SummarizableObject
     = (Inl (Error ''invalid base64''), new_SummarizableObject)
   \<and> loadCore base64_to_utf8 [] (storage_holding ''ew=='') new_SummarizableObject
     = (Inl SyntaxError, new_SummarizableObject)
   \<and> loadCore base64_to_utf8 [] (storage_holding ''bnVsbA=='') new_SummarizableObject
     = (Inl TypeError, new_SummarizableObject)
   \<and> fst (loadCore base64_to_utf8 [] (storage_holding ''ImEi'') new_SummarizableObject) = Inr ()"
proof -
  have 1: "read empty_storage snapshotFileName = Inl (Error ''not found'')"
    by (simp add: empty_storage_def)
  have 2: "read (storage_holding ''e30'') snapshotFileName = Inr ''e30''
      \<and> base64_to_utf8 ''e30'' = Inl (Error ''invalid base64'')"
    by (simp add: base64_to_utf8_def storage_holding_def)
  have 3: "read (storage_holding ''ew=='') snapshotFileName = Inr ''ew==''
      \<and> base64_to_utf8 ''ew=='' = Inr ''{'' \<and> JSON_parse ''{'' = Inl SyntaxError"
    by code_simp
  have 4: "read (storage_holding ''bnVsbA=='') snapshotFileName = Inr ''bnVsbA==''
      \<and> base64_to_utf8 ''bnVsbA=='' = Inr ''null'' \<and> JSON_parse ''null'' = Inr JNull"
    by code_simp
  have 5: \<open>read (storage_holding ''ImEi'') snapshotFileName = Inr ''ImEi''
      \<and> base64_to_utf8 ''ImEi'' = Inr ''"a"'' \<and> JSON_parse ''"a"'' = Inr (JString ''a'')
      \<and> JString ''a'' \<noteq> JNull\<close>
    by code_simp
  show ?thesis
    using load_failure_keeps_store [where storage = empty_storage and e = "Error ''not found''"
        and decoder = base64_to_utf8 and branchId = "[]" and this = new_SummarizableObject]
      load_failure_keeps_store [where storage = "storage_holding ''e30''" and e = "Error ''invalid base64''"
        and decoder = base64_to_utf8 and branchId = "[]" and this = new_SummarizableObject]
      load_failure_keeps_store [where storage = "storage_holding ''ew==''" and e = SyntaxError
        and decoder = base64_to_utf8 and branchId = "[]" and this = new_SummarizableObject]
      load_failure_keeps_store [where storage = "storage_holding ''bnVsbA==''" and e = TypeError
        and decoder = base64_to_utf8 and branchId = "[]" and this = new_SummarizableObject]
      load_failure_keeps_store [where storage = "storage_holding ''ImEi''" and decoder = base64_to_utf8
        and branchId = "[]" and this = new_SummarizableObject and raw = "''ImEi''"
        and parsed = "JString ''a''"]
      1 2 3 4 5
    by blast
qed

text \<open>
  The claim as stated fails for the text \<^verbatim>\<open>[7]\<close>, valid JSON but not an object:
  \<open>loadCore\<close> returns normally and the mapping holds the element under its index.
\<close>

theorem load_non_object_counterexample:
  "base64_to_utf8 ''Wzdd'' = Inr ''[7]''
   \<and> JSON_parse ''[7]'' = Inr (JArray [JNumber 7])
   \<and> loadCore base64_to_utf8 [] (storage_holding ''Wzdd'') new_SummarizableObject
     = (Inr (), \<lparr>is_dirty = False, data = [(''0'', JNumber 7)]\<rparr>)"
  by code_simp

text \<open>
  C6 (as the code has it). When the blob is read, decoded and parsed, and the parsed value
  has entries, \<open>loadCore\<close> sets each of them in the mapping: afterwards a key of the
  entries holds its (last) parsed value, any other key holds what it held before, and the
  dirty flag is as before. Into an empty mapping, a parsed object loads as exactly its
  pairs.
\<close>

theorem load_sets_parsed_pairs:
  assumes "read storage snapshotFileName = Inr rawContent"
    and "decoder rawContent = Inr text"
    and "JSON_parse text = Inr parsed"
    and "Object_entries parsed = Inr es"
  shows "fst (loadCore decoder branchId storage this) = Inr ()
    \<and> fst (get k (snd (loadCore decoder branchId storage this)))
        = (case map_of (rev es) k of None \<Rightarrow> fst (get k this) | Some v \<Rightarrow> Inr v)
    \<and> is_dirty (snd (loadCore decoder branchId storage this)) = is_dirty this
    \<and> (data this = [] \<and> parsed = JObject es \<longrightarrow> data (snd (loadCore decoder branchId storage this)) = es)"
proof -
  have load: "loadCore decoder branchId storage this = (Inr (), set_entries es this)"
    using assms by (simp add: loadCore_def)
  have look: "fst (get k (set_entries es this))
        = (case map_of (rev es) k of None \<Rightarrow> fst (get k this) | Some v \<Rightarrow> Inr v)"
    by (simp add: get_def data_set_entries Map_get_foldl_Map_set split: option.split)
  have whole: "data (set_entries es this) = es" if "data this = []" and "parsed = JObject es"
  proof -
    from that assms(3) have "distinct (map fst es)" by (simp add: JSON_parse_object_distinct)
    then have "foldl (\<lambda>m (k, v). Map_set k v m) [] es = [] @ es"
      by (intro foldl_Map_set_distinct) simp
    with that show ?thesis by (simp add: data_set_entries)
  qed
  from load look whole show ?thesis by (simp add: is_dirty_set_entries)
qed

theorem load_sets_parsed_pairs_witness:
  \<open>loadCore base64_to_utf8 [] (storage_holding ''eyJiIjoyfQ=='') new_SummarizableObject
     = (Inr (), \<lparr>is_dirty = False, data = [(''b'', JNumber 2)]\<rparr>)\<close>
proof -
  let ?st = "storage_holding ''eyJiIjoyfQ==''"
  let ?after = "loadCore base64_to_utf8 [] ?st new_SummarizableObject"
  have r: "read ?st snapshotFileName = Inr ''eyJiIjoyfQ==''" by (simp add: storage_holding_def)
  have d: \<open>base64_to_utf8 ''eyJiIjoyfQ=='' = Inr ''{"b":2}''\<close> by code_simp
  have p: \<open>JSON_parse ''{"b":2}'' = Inr (JObject [(''b'', JNumber 2)])\<close> by code_simp
  have e: "Object_entries (JObject [(''b'', JNumber 2)]) = Inr [(''b'', JNumber 2)]" by simp
  have n: "data new_SummarizableObject = []" "is_dirty new_SummarizableObject = False"
    by (simp_all add: new_SummarizableObject_def)
  note loaded = load_sets_parsed_pairs [where storage = ?st and decoder = base64_to_utf8
      and branchId = "[]" and k = "''b''" and this = new_SummarizableObject, OF r d p e]
  from loaded have ok: "fst ?after = Inr ()" by blast
  from loaded n have dat: "data (snd ?after) = [(''b'', JNumber 2)]" by blast
  from loaded n have dir: "is_dirty (snd ?after) = False" by simp
  from dat dir have "snd ?after = \<lparr>is_dirty = False, data = [(''b'', JNumber 2)]\<rparr>" by simp
  with ok show ?thesis by (metis prod.collapse)
qed

text \<open>
  The claim as stated fails for a mapping that is not empty: the entry it held before the
  load is still there.
\<close>

theorem load_merges_counterexample:
  \<open>base64_to_utf8 ''eyJiIjoyfQ=='' = Inr ''{"b":2}''
   \<and> JSON_parse ''{"b":2}'' = Inr (JObject [(''b'', JNumber 2)])
   \<and> loadCore base64_to_utf8 [] (storage_holding ''eyJiIjoyfQ=='') \<lparr>is_dirty = True, data = [(''a'', JNumber 1)]\<rparr>
     = (Inr (), \<lparr>is_dirty = True, data = [(''a'', JNumber 1), (''b'', JNumber 2)]\<rparr>)
   \<and> [(''a'', JNumber 1), (''b'', JNumber 2)] \<noteq> [(''b'', JNumber 2)]\<close>
  by code_simp

subsection \<open>The transport encoding\<close>

text \<open>Decoding what was encoded gives the text back.\<close>

lemma byte_div:
  fixes t :: nat
  assumes "t < 256"
  shows "t div 4 < 64" "t div 16 < 16" "t div 64 < 4"
  using assms by (simp_all add: less_mult_imp_div_less)

lemma utf8_decode_two:
  fixes q r :: nat
  assumes "q = 2 \<or> q = 3" and "r < 64"
  shows "utf8_decode (char_of (192 + q) # char_of (128 + r) # rest)
           = cons_byte (char_of (q * 64 + r)) (utf8_decode rest)"
proof -
  from assms(2) have b2: "(of_char (char_of (128 + r)) :: nat) = 128 + r" by simp
  from assms(1) show ?thesis
  proof
    assume "q = 2"
    with assms(2) show ?thesis by (simp add: b2 Let_def)
  next
    assume "q = 3"
    with assms(2) show ?thesis by (simp add: b2 Let_def)
  qed
qed

lemma utf8_decode_encode: "utf8_decode (utf8_encode s) = Inr s"
proof (induction s)
  case Nil
  show ?case by simp
next
  case (Cons c s)
  define n where "n = (of_char c :: nat)"
  have n256: "n < 256" unfolding n_def by simp
  show ?case
  proof (cases "n < 128")
    case True
    with Cons.IH show ?thesis by (simp add: n_def [symmetric] cons_byte_def)
  next
    case False
    define q where "q = n div 64"
    define r where "r = n mod 64"
    have q4: "q < 4" unfolding q_def using n256 by (rule byte_div)
    have q2: "2 \<le> q"
    proof -
      from False have "2 * 64 \<le> n" by simp
      then show ?thesis
        unfolding q_def by (simp only: less_eq_div_iff_mult_less_eq [symmetric] zero_less_numeral)
    qed
    from q2 q4 have q: "q = 2 \<or> q = 3" by arith
    have r: "r < 64" unfolding r_def by simp
    have orig: "char_of (q * 64 + r) = c"
      unfolding q_def r_def by (simp add: n_def)
    from False have "utf8_encode (c # s) = char_of (192 + q) # char_of (128 + r) # utf8_encode s"
      by (simp add: n_def [symmetric] q_def r_def Let_def)
    then show ?thesis
      by (simp only: utf8_decode_two [OF q r] orig Cons.IH cons_byte_def sum.case)
  qed
qed

lemma base64_value_char: "n < 64 \<Longrightarrow> base64_value (base64_char n) = Some n"
  by (auto simp add: base64_value_def base64_char_def Let_def)

lemma base64_char_not_pad: "n < 64 \<Longrightarrow> base64_char n \<noteq> CHR ''=''"
proof -
  assume "n < 64"
  then have "base64_value (base64_char n) = Some n" by (rule base64_value_char)
  moreover have "base64_value (CHR ''='') = None" by (simp add: base64_value_def)
  ultimately show ?thesis by auto
qed

lemma sextets:
  fixes x y z :: nat
  assumes "x < 256" "y < 256" "z < 256"
  shows "x div 4 < 64" "x mod 4 * 16 < 64" "x mod 4 * 16 + y div 16 < 64"
    "y mod 16 * 4 < 64" "y mod 16 * 4 + z div 64 < 64" "z mod 64 < 64"
proof -
  have a: "x mod 4 < 4" "y mod 16 < 16" by simp_all
  note b = byte_div(2) [OF assms(2)] byte_div(3) [OF assms(3)]
  show "x div 4 < 64" using assms(1) by (rule byte_div)
  show "x mod 4 * 16 < 64" using a by arith
  show "x mod 4 * 16 + y div 16 < 64" using a b by arith
  show "y mod 16 * 4 < 64" using a by arith
  show "y mod 16 * 4 + z div 64 < 64" using a b by arith
  show "z mod 64 < 64" by simp
qed

lemma octets:
  fixes x y z :: nat
  assumes "x < 256" "y < 256" "z < 256"
  shows "(x div 4 * 4 + (x mod 4 * 16 + y div 16) div 16) mod 256 = x"
    "((x mod 4 * 16 + y div 16) mod 16 * 16 + (y mod 16 * 4 + z div 64) div 4) mod 256 = y"
    "((y mod 16 * 4 + z div 64) mod 4 * 64 + z mod 64) mod 256 = z"
    "(x div 4 * 4 + (x mod 4 * 16) div 16) mod 256 = x"
    "((x mod 4 * 16 + y div 16) mod 16 * 16 + (y mod 16 * 4) div 4) mod 256 = y"
  using assms byte_div(2) [OF assms(2)] byte_div(3) [OF assms(3)] by simp_all

lemma char_of_eq: "n mod 256 = of_char c \<Longrightarrow> char_of (n :: nat) = c"
  by (metis char_of_char char_of_mod_256)

lemma base64_decode_encode: "base64_decode (base64_encode bs) = Inr bs"
proof (induction bs rule: base64_encode.induct)
  case 1
  show ?case by simp
next
  case (2 a)
  define x where "x = (of_char a :: nat)"
  have x: "x < 256" by (simp add: x_def)
  note s = sextets [OF x x x]
  have "char_of (x div 4 * 4 + (x mod 4 * 16) div 16) = a"
    using octets(4) [OF x x x] by (intro char_of_eq) (simp only: x_def)
  then show ?case
    by (simp add: x_def [symmetric] Let_def base64_value_char s base64_char_not_pad)
next
  case (3 a b)
  define x where "x = (of_char a :: nat)"
  define y where "y = (of_char b :: nat)"
  have x: "x < 256" and y: "y < 256" by (simp_all add: x_def y_def)
  note s = sextets [OF x y y]
  have "char_of (x div 4 * 4 + (x mod 4 * 16 + y div 16) div 16) = a"
    using octets(1) [OF x y y] by (intro char_of_eq) (simp only: x_def)
  moreover have "char_of ((x mod 4 * 16 + y div 16) mod 16 * 16 + (y mod 16 * 4) div 4) = b"
    using octets(5) [OF x y y] by (intro char_of_eq) (simp only: y_def)
  ultimately show ?case
    by (simp add: x_def [symmetric] y_def [symmetric] Let_def base64_value_char s base64_char_not_pad)
next
  case (4 a b c rest)
  define x where "x = (of_char a :: nat)"
  define y where "y = (of_char b :: nat)"
  define z where "z = (of_char c :: nat)"
  have x: "x < 256" and y: "y < 256" and z: "z < 256" by (simp_all add: x_def y_def z_def)
  note s = sextets [OF x y z]
  have "char_of (x div 4 * 4 + (x mod 4 * 16 + y div 16) div 16) = a"
    using octets(1) [OF x y z] by (intro char_of_eq) (simp only: x_def)
  moreover have "char_of ((x mod 4 * 16 + y div 16) mod 16 * 16 + (y mod 16 * 4 + z div 64) div 4) = b"
    using octets(2) [OF x y z] by (intro char_of_eq) (simp only: y_def)
  moreover have "char_of ((y mod 16 * 4 + z div 64) mod 4 * 64 + z mod 64) = c"
    using octets(3) [OF x y z] by (intro char_of_eq) (simp only: z_def)
  ultimately show ?case using "4.IH"
    by (simp add: x_def [symmetric] y_def [symmetric] z_def [symmetric] Let_def base64_value_char s
        base64_char_not_pad cons_byte_def)
qed

lemma base64_to_utf8_inverse: "base64_to_utf8 (utf8_to_base64 text) = Inr text"
  by (simp add: base64_to_utf8_def utf8_to_base64_def base64_decode_encode utf8_decode_encode)

subsection \<open>Numbers and strings\<close>

lemma digit_char_props:
  assumes "d < 10"
  shows "is_digit (digit_char d)" "digit_val (digit_char d) = int d"
    "(digit_char d = CHR ''0'') = (d = 0)"
proof -
  from assms have v: "(of_char (digit_char d) :: nat) = 48 + d"
    by (simp add: digit_char_def)
  from v assms show "is_digit (digit_char d)" by (simp add: is_digit_def)
  have "(of_char (digit_char d) :: int) = int (of_char (digit_char d))"
    by (simp add: of_nat_of_char)
  with v show "digit_val (digit_char d) = int d" by (simp add: digit_val_def)
  have "(digit_char d = CHR ''0'') = ((of_char (digit_char d) :: nat) = of_char (CHR ''0''))"
    by (simp only: of_char_eq_iff)
  also have "\<dots> = (d = 0)" by (simp add: v)
  finally show "(digit_char d = CHR ''0'') = (d = 0)" .
qed

lemma digits_int_snoc: "digits_int (ds @ [c]) = 10 * digits_int ds + digit_val c"
  by (simp add: digits_int_def)

lemma nat_digits_props:
  "nat_digits n \<noteq> [] \<and> list_all is_digit (nat_digits n) \<and> digits_int (nat_digits n) = int n
   \<and> ((hd (nat_digits n) = CHR ''0'') = (n = 0)) \<and> (n = 0 \<longrightarrow> nat_digits n = ''0'')"
proof (induction n rule: nat_digits.induct)
  case (1 n)
  show ?case
  proof (cases "n < 10")
    case True
    then have "nat_digits n = [digit_char n]" by (simp add: nat_digits.simps)
    moreover have "digit_char 0 = CHR ''0''" using digit_char_props(3) [of 0] by simp
    ultimately show ?thesis
      using digit_char_props [OF True] by (auto simp add: digits_int_def)
  next
    case False
    then have unfold: "nat_digits n = nat_digits (n div 10) @ [digit_char (n mod 10)]"
      by (subst nat_digits.simps) simp
    have m: "n mod 10 < 10" by simp
    from False have pos: "n div 10 \<noteq> 0" by simp
    from False have IH: "nat_digits (n div 10) \<noteq> []" "list_all is_digit (nat_digits (n div 10))"
      "digits_int (nat_digits (n div 10)) = int (n div 10)"
      "(hd (nat_digits (n div 10)) = CHR ''0'') = (n div 10 = 0)"
      using "1.IH" by simp_all
    have split: "10 * int (n div 10) + int (n mod 10) = int n"
      by (simp add: zdiv_int zmod_int)
    have a: "nat_digits n \<noteq> []" by (simp add: unfold)
    have b: "list_all is_digit (nat_digits n)"
      by (simp add: unfold IH(2) digit_char_props(1) [OF m])
    have c: "digits_int (nat_digits n) = int n"
      by (simp only: unfold digits_int_snoc IH(3) digit_char_props(2) [OF m] split)
    have "hd (nat_digits n) = hd (nat_digits (n div 10))"
      using IH(1) by (simp add: unfold)
    with IH(4) pos have d: "hd (nat_digits n) \<noteq> CHR ''0''" by simp
    from False have e: "n \<noteq> 0" by simp
    from a b c d e show ?thesis by simp
  qed
qed

lemma takeWhile_digits:
  assumes "list_all is_digit ds" and "rest = [] \<or> \<not> is_digit (hd rest)"
  shows "takeWhile is_digit (ds @ rest) = ds" "dropWhile is_digit (ds @ rest) = rest"
proof -
  from assms(2) have t: "takeWhile is_digit rest = []" and d: "dropWhile is_digit rest = rest"
    by (cases rest; auto)+
  from assms(1) have all: "\<forall>x \<in> set ds. is_digit x" by (simp add: list_all_iff)
  from all t show "takeWhile is_digit (ds @ rest) = ds" by (simp add: takeWhile_append2)
  from all d show "dropWhile is_digit (ds @ rest) = rest" by (simp add: dropWhile_append2)
qed

lemma parse_number_int_digits:
  assumes "safe_integer n" and "number_end rest"
  shows "parse_number (int_digits n @ rest) = Inr (JNumber n, rest)"
proof -
  define m where "m = nat \<bar>n\<bar>"
  note p = nat_digits_props [of m]
  from assms(2) have e: "rest = [] \<or> \<not> is_digit (hd rest)" by (auto simp: number_end_def)
  from p have tw: "takeWhile is_digit (nat_digits m @ rest) = nat_digits m"
    and dw: "dropWhile is_digit (nat_digits m @ rest) = rest"
    using takeWhile_digits [OF _ e] by blast+
  from p have zero: "1 < length (nat_digits m) \<Longrightarrow> hd (nat_digits m) \<noteq> CHR ''0''"
    by (cases "m = 0") auto
  from assms(1) have safe: "safe_integer (int m)" by (auto simp: m_def safe_integer_def)
  have notminus: "hd (nat_digits m @ rest) \<noteq> CHR ''-''"
  proof -
    from p have "is_digit (hd (nat_digits m))" by (cases "nat_digits m") auto
    moreover have "\<not> is_digit (CHR ''-'')" by (simp add: is_digit_def)
    ultimately show ?thesis using p by (cases "nat_digits m") auto
  qed
  show ?thesis
  proof (cases "n < 0")
    case True
    then have "int_digits n = CHR ''-'' # nat_digits m" "- int m = n"
      by (simp_all add: int_digits_def m_def)
    with p tw dw zero safe assms(2) show ?thesis
      by (auto simp add: parse_number_def Let_def number_end_def)
  next
    case False
    then have "int_digits n = nat_digits m" "int m = n"
      by (simp_all add: int_digits_def m_def)
    with p tw dw zero safe assms(2) notminus show ?thesis
      by (auto simp add: parse_number_def Let_def number_end_def)
  qed
qed

lemma hex_val_hex_char: "d < 16 \<Longrightarrow> hex_val (hex_char d) = Some d"
  by (simp add: hex_val_def hex_char_def Let_def)

lemma parse_string_chars_u00:
  assumes "d3 < 16" "d4 < 16"
  shows "parse_string_chars (CHR 0x5C # CHR ''u'' # CHR ''0'' # CHR ''0'' # hex_char d3 # hex_char d4 # rest)
           = cons_char (char_of (16 * d3 + d4)) (parse_string_chars rest)"
proof -
  have z: "hex_val (CHR ''0'') = Some 0" by (simp add: hex_val_def)
  show ?thesis
    by (simp add: z hex_val_hex_char [OF assms(1)] hex_val_hex_char [OF assms(2)])
qed

lemma parse_string_chars_quoted:
  "parse_string_chars (QuoteJSONChar c @ rest) = cons_char c (parse_string_chars rest)"
proof -
  define n where "n = (of_char c :: nat)"
  consider (esc) "c = CHR 0x22 \<or> c = CHR 0x5C \<or> c = CHR 0x08 \<or> c = CHR 0x0C \<or> c = CHR 0x0A
      \<or> c = CHR 0x0D \<or> c = CHR 0x09"
    | (ctl) "c \<noteq> CHR 0x22" "c \<noteq> CHR 0x5C" "c \<noteq> CHR 0x08" "c \<noteq> CHR 0x0C" "c \<noteq> CHR 0x0A"
        "c \<noteq> CHR 0x0D" "c \<noteq> CHR 0x09" "n < 0x20"
    | (lit) "c \<noteq> CHR 0x22" "c \<noteq> CHR 0x5C" "c \<noteq> CHR 0x08" "c \<noteq> CHR 0x0C" "c \<noteq> CHR 0x0A"
        "c \<noteq> CHR 0x0D" "c \<noteq> CHR 0x09" "\<not> n < 0x20"
    by blast
  then show ?thesis
  proof cases
    case esc
    then show ?thesis
      by (elim disjE) (simp_all add: QuoteJSONChar_def unescape_def)
  next
    case ctl
    have d: "n div 16 < 16" "n mod 16 < 16" using ctl(8) by simp_all
    have c: "char_of (16 * (n div 16) + n mod 16) = c" by (simp add: n_def)
    from ctl have "QuoteJSONChar c = [CHR 0x5C, CHR ''u'', CHR ''0'', CHR ''0'', hex_char (n div 16), hex_char (n mod 16)]"
      by (simp add: QuoteJSONChar_def n_def)
    then show ?thesis
      using parse_string_chars_u00 [OF d, of rest] by (simp only: c append_Cons append_Nil)
  next
    case lit
    then show ?thesis by (simp add: QuoteJSONChar_def n_def)
  qed
qed

lemma parse_string_chars_concat:
  "parse_string_chars (concat (map QuoteJSONChar s) @ CHR 0x22 # rest) = Inr (s, rest)"
proof (induction s)
  case Nil
  show ?case by simp
next
  case (Cons c s)
  have "parse_string_chars (concat (map QuoteJSONChar (c # s)) @ CHR 0x22 # rest)
      = parse_string_chars (QuoteJSONChar c @ (concat (map QuoteJSONChar s) @ CHR 0x22 # rest))"
    by simp
  also have "\<dots> = cons_char c (parse_string_chars (concat (map QuoteJSONChar s) @ CHR 0x22 # rest))"
    by (rule parse_string_chars_quoted)
  also have "\<dots> = Inr (c # s, rest)" by (simp add: Cons.IH cons_char_def)
  finally show ?case .
qed

lemma parse_quoted_string:
  "QuoteJSONString s @ rest = CHR 0x22 # concat (map QuoteJSONChar s) @ CHR 0x22 # rest"
  by (simp add: QuoteJSONString_def)

subsection \<open>The text of a value parses back to the value\<close>

text \<open>A value of the model is JSON-representable.\<close>

lemma in_model_jsonable:
  "in_model v \<longrightarrow> jsonable v"
  "in_model_elements vs \<longrightarrow> jsonable_elements vs"
  "in_model_members ps \<longrightarrow> jsonable_members ps"
  by (induction v and vs and ps rule: in_model_in_model_elements_in_model_members.induct) simp_all

lemma value_end_number_end: "value_end rest \<Longrightarrow> number_end rest"
  by (auto simp: value_end_def number_end_def is_digit_def)

lemma skip_ws_value_start: "value_start s \<Longrightarrow> skip_ws (s @ r) = s @ r"
  by (cases s) (auto simp: value_start_def skip_ws_def)

lemma skip_ws_Cons: "\<not> is_ws c \<Longrightarrow> skip_ws (c # r) = c # r"
  by (simp add: skip_ws_def)

lemma value_start_append: "value_start s \<Longrightarrow> value_start (s @ r)"
  by (cases s) (auto simp: value_start_def)

lemma parse_value_null: "parse_value (Suc n) (''null'' @ rest) = Inr (JNull, rest)"
  by (simp add: is_digit_def)

lemma parse_value_true: "parse_value (Suc n) (''true'' @ rest) = Inr (JBoolean True, rest)"
  by (simp add: is_digit_def)

lemma parse_value_false: "parse_value (Suc n) (''false'' @ rest) = Inr (JBoolean False, rest)"
  by (simp add: is_digit_def)

lemma parse_value_string: "parse_value (Suc n) (QuoteJSONString s @ rest) = Inr (JString s, rest)"
  by (simp add: parse_quoted_string parse_string_chars_concat)

lemma int_digits_start:
  "\<exists>c cs. int_digits k = c # cs \<and> (c = CHR ''-'' \<or> is_digit c)"
proof (cases "k < 0")
  case True
  then show ?thesis by (simp add: int_digits_def)
next
  case False
  note p = nat_digits_props [of "nat k"]
  then obtain c cs where "nat_digits (nat k) = c # cs" by (cases "nat_digits (nat k)") auto
  with p False show ?thesis by (auto simp: int_digits_def)
qed

lemma is_digit_not_special:
  "is_digit c \<Longrightarrow> c \<noteq> CHR ''{'' \<and> c \<noteq> CHR ''['' \<and> c \<noteq> CHR 0x22 \<and> \<not> is_ws c \<and> c \<noteq> CHR '']'' \<and> c \<noteq> CHR ''}''"
  by (auto simp: is_digit_def is_ws_def)

lemma parse_value_number:
  assumes "safe_integer k" and "number_end rest"
  shows "parse_value (Suc n) (int_digits k @ rest) = Inr (JNumber k, rest)"
proof -
  from int_digits_start obtain c cs where
    s: "int_digits k = c # cs" and c: "c = CHR ''-'' \<or> is_digit c" by blast
  from c have d: "c \<noteq> CHR ''{''" "c \<noteq> CHR ''[''" "c \<noteq> CHR 0x22"
    using is_digit_not_special [of c] by auto
  have "parse_value (Suc n) (c # cs @ rest) = parse_number (c # cs @ rest)"
    using c d by simp
  with s parse_number_int_digits [OF assms] show ?thesis by simp
qed

lemma value_start_number: "value_start (int_digits k)"
proof -
  from int_digits_start obtain c cs where
    s: "int_digits k = c # cs" and c: "c = CHR ''-'' \<or> is_digit c" by blast
  from c have "\<not> is_ws c \<and> c \<noteq> CHR '']'' \<and> c \<noteq> CHR ''}''"
    using is_digit_not_special [of c] by (auto simp: is_ws_def)
  with s show ?thesis by (simp add: value_start_def)
qed

lemma parse_value_array_empty: "parse_value (Suc n) (''[]'' @ rest) = Inr (JArray [], rest)"
  by (simp add: skip_ws_def is_ws_def)

lemma parse_value_object_empty: "parse_value (Suc n) (''{}'' @ rest) = Inr (JObject [], rest)"
  by (simp add: skip_ws_def is_ws_def)

lemma parse_value_array:
  assumes "value_start s" and "parse_elements n (s @ CHR '']'' # rest) = Inr (vs, rest)"
  shows "parse_value (Suc n) (''['' @ s @ '']'' @ rest) = Inr (JArray vs, rest)"
proof -
  from assms(1) have sk: "skip_ws (s @ CHR '']'' # rest) = s @ CHR '']'' # rest"
    by (rule skip_ws_value_start)
  from assms(1) have "hd (s @ CHR '']'' # rest) \<noteq> CHR '']''"
    by (cases s) (auto simp: value_start_def)
  with sk assms(2) show ?thesis by simp
qed

lemma parse_value_object:
  assumes "value_start s" and "parse_members n (s @ CHR ''}'' # rest) = Inr (ms, rest)"
  shows "parse_value (Suc n) (''{'' @ s @ ''}'' @ rest)
           = Inr (JObject (foldl (\<lambda>ps (k, v). CreateDataProperty k v ps) [] ms), rest)"
proof -
  from assms(1) have sk: "skip_ws (s @ CHR ''}'' # rest) = s @ CHR ''}'' # rest"
    by (rule skip_ws_value_start)
  from assms(1) have "hd (s @ CHR ''}'' # rest) \<noteq> CHR ''}''"
    by (cases s) (auto simp: value_start_def)
  with sk assms(2) show ?thesis by simp
qed

lemma parse_elements_last:
  assumes "parse_value n (s @ CHR '']'' # rest) = Inr (v, CHR '']'' # rest)"
  shows "parse_elements (Suc n) (s @ CHR '']'' # rest) = Inr ([v], rest)"
  using assms by (simp add: skip_ws_def is_ws_def)

lemma parse_elements_more:
  assumes "parse_value n (s @ CHR '','' # t) = Inr (v, CHR '','' # t)"
    and "value_start t" and "parse_elements n t = Inr (vs, rest)"
  shows "parse_elements (Suc n) (s @ CHR '','' # t) = Inr (v # vs, rest)"
proof -
  have a: "skip_ws (CHR '','' # t) = CHR '','' # t" by (simp add: skip_ws_def is_ws_def)
  from assms(2) have b: "skip_ws t = t" using skip_ws_value_start [of t "[]"] by simp
  from assms(1,3) a b show ?thesis by simp
qed

lemma parse_members_last:
  assumes "parse_value n (s @ CHR ''}'' # rest) = Inr (v, CHR ''}'' # rest)" and "value_start s"
  shows "parse_members (Suc n) (QuoteJSONString k @ CHR '':'' # s @ CHR ''}'' # rest) = Inr ([(k, v)], rest)"
proof -
  have a: "skip_ws (CHR '':'' # s @ CHR ''}'' # rest) = CHR '':'' # s @ CHR ''}'' # rest"
    by (simp add: skip_ws_def is_ws_def)
  from assms(2) have b: "skip_ws (s @ CHR ''}'' # rest) = s @ CHR ''}'' # rest"
    by (rule skip_ws_value_start)
  have c: "skip_ws (CHR ''}'' # rest) = CHR ''}'' # rest" by (simp add: skip_ws_def is_ws_def)
  have d: "parse_string_chars (concat (map QuoteJSONChar k) @ CHR 0x22 # CHR '':'' # s @ CHR ''}'' # rest)
             = Inr (k, CHR '':'' # s @ CHR ''}'' # rest)"
    by (rule parse_string_chars_concat)
  from assms(1) a b c d show ?thesis by (simp add: QuoteJSONString_def)
qed

lemma parse_members_more:
  assumes "parse_value n (s @ CHR '','' # t) = Inr (v, CHR '','' # t)" and "value_start s"
    and "value_start t" and "parse_members n t = Inr (ms, rest)"
  shows "parse_members (Suc n) (QuoteJSONString k @ CHR '':'' # s @ CHR '','' # t) = Inr ((k, v) # ms, rest)"
proof -
  have a: "skip_ws (CHR '':'' # s @ CHR '','' # t) = CHR '':'' # s @ CHR '','' # t"
    by (simp add: skip_ws_def is_ws_def)
  from assms(2) have b: "skip_ws (s @ CHR '','' # t) = s @ CHR '','' # t"
    by (rule skip_ws_value_start)
  have c: "skip_ws (CHR '','' # t) = CHR '','' # t" by (simp add: skip_ws_def is_ws_def)
  from assms(3) have e: "skip_ws t = t" using skip_ws_value_start [of t "[]"] by simp
  have d: "parse_string_chars (concat (map QuoteJSONChar k) @ CHR 0x22 # CHR '':'' # s @ CHR '','' # t)
             = Inr (k, CHR '':'' # s @ CHR '','' # t)"
    by (rule parse_string_chars_concat)
  from assms(1,4) a b c d e show ?thesis by (simp add: QuoteJSONString_def)
qed

lemma property_ordered_tail: "property_ordered (k # ks) \<Longrightarrow> property_ordered ks"
  by (cases ks) simp_all

lemma property_ordered_prefix: "property_ordered (xs @ ys) \<Longrightarrow> property_ordered xs"
proof (induction xs rule: property_ordered.induct)
  case 1
  show ?case by simp
next
  case (2 k)
  show ?case by simp
next
  case (3 k k' ks)
  from "3.prems" have "property_ordered (k # k' # (ks @ ys))" by simp
  then have step: "key_before k k'"
    and rest: "property_ordered ((k' # ks) @ ys)" by simp_all
  from rest have "property_ordered (k' # ks)" by (rule "3.IH")
  with step show ?case by simp
qed

lemma property_ordered_before_index:
  assumes "property_ordered (ks @ [k])" and "array_index k = Some n"
  shows "\<forall>k' \<in> set ks. \<exists>n'. array_index k' = Some n' \<and> n' \<le> n"
  using assms
proof (induction ks)
  case Nil
  then show ?case by simp
next
  case (Cons a ks)
  from Cons.prems(1) have tail: "property_ordered (ks @ [k])"
    using property_ordered_tail [of a "ks @ [k]"] by simp
  from tail Cons.prems(2) have IH: "\<forall>k' \<in> set ks. \<exists>n'. array_index k' = Some n' \<and> n' \<le> n"
    by (rule Cons.IH)
  have "\<exists>n'. array_index a = Some n' \<and> n' \<le> n"
  proof (cases ks)
    case Nil
    with Cons.prems show ?thesis by (auto simp: key_before_def split: option.splits)
  next
    case (Cons b ks')
    with IH obtain m where "array_index b = Some m" "m \<le> n" by auto
    with Cons.prems(1) Cons show ?thesis by (auto simp: key_before_def split: option.splits)
  qed
  with IH show ?case by simp
qed

lemma insert_property_last:
  assumes "property_ordered (map fst ps @ [k])"
  shows "insert_property k v ps = ps @ [(k, v)]"
  using assms
proof (induction ps)
  case Nil
  show ?case by simp
next
  case (Cons p ps)
  obtain k' v' where p: "p = (k', v')" by (cases p)
  from Cons.prems p have tail: "property_ordered (map fst ps @ [k])"
    using property_ordered_tail [of k' "map fst ps @ [k]"] by simp
  then have IH: "insert_property k v ps = ps @ [(k, v)]" by (rule Cons.IH)
  show ?case
  proof (cases "array_index k")
    case None
    with p IH show ?thesis by simp
  next
    case (Some n)
    from Cons.prems p have "property_ordered ((k' # map fst ps) @ [k])" by simp
    from property_ordered_before_index [OF this Some]
    obtain n' where "array_index k' = Some n'" "n' \<le> n" by auto
    with Some p IH show ?thesis by simp
  qed
qed

lemma foldl_CreateDataProperty_wf:
  assumes "distinct (map fst (acc @ es))" and "property_ordered (map fst (acc @ es))"
  shows "foldl (\<lambda>ps (k, v). CreateDataProperty k v ps) acc es = acc @ es"
  using assms
proof (induction es arbitrary: acc)
  case Nil
  show ?case by simp
next
  case (Cons e es)
  obtain k v where e: "e = (k, v)" by (cases e)
  from Cons.prems(1) e have fresh: "k \<notin> set (map fst acc)" by auto
  from Cons.prems(2) e have "property_ordered ((map fst acc @ [k]) @ map fst es)" by simp
  then have "property_ordered (map fst acc @ [k])" by (rule property_ordered_prefix)
  then have "insert_property k v acc = acc @ [(k, v)]" by (rule insert_property_last)
  with fresh have step: "CreateDataProperty k v acc = acc @ [(k, v)]"
    by (simp add: CreateDataProperty_def)
  from Cons.prems e have "distinct (map fst ((acc @ [(k, v)]) @ es))"
    and "property_ordered (map fst ((acc @ [(k, v)]) @ es))" by simp_all
  then have "foldl (\<lambda>ps (k, v). CreateDataProperty k v ps) (acc @ [(k, v)]) es = (acc @ [(k, v)]) @ es"
    by (rule Cons.IH)
  with step e show ?case by simp
qed

lemma foldl_CreateDataProperty_same:
  "wf_properties ps \<Longrightarrow> foldl (\<lambda>ps (k, v). CreateDataProperty k v ps) [] ps = ps"
  using foldl_CreateDataProperty_wf [of "[]" ps] by (simp add: wf_properties_def)

lemma fuel_value_pos: "0 < fuel_value v"
  by (cases v) simp_all

lemma parses_backI:
  assumes "SerializeJSONProperty v = Inr (Some s)" and "value_start s"
    and "\<And>n rest. fuel_value v \<le> Suc n \<Longrightarrow> value_end rest \<Longrightarrow> parse_value (Suc n) (s @ rest) = Inr (v, rest)"
  shows "parses_back v"
proof -
  have "parse_value n (s @ rest) = Inr (v, rest)" if "fuel_value v \<le> n" "value_end rest" for n rest
  proof (cases n)
    case 0
    with that fuel_value_pos [of v] show ?thesis by simp
  next
    case (Suc m)
    with that assms(3) show ?thesis by simp
  qed
  with assms(1,2) show ?thesis unfolding parses_back_def by blast
qed

lemma join_comma_Cons: "xs \<noteq> [] \<Longrightarrow> join_comma (x # xs) = x @ CHR '','' # join_comma xs"
  by (cases xs) simp_all

lemma value_start_join_comma: "value_start (join_comma ts) \<Longrightarrow> ts \<noteq> []"
  by (auto simp: value_start_def)

lemma in_model_not_callable: "in_model v \<Longrightarrow> \<not> IsCallable v"
  by (cases v) simp_all

lemma in_model_members_not_callable: "in_model_members ps \<Longrightarrow> \<not> IsCallable (own_property ps k)"
proof (induction ps)
  case Nil
  show ?case by (simp add: own_property_def)
next
  case (Cons p ps)
  obtain k' v' where p: "p = (k', v')" by (cases p)
  from Cons.prems p have v: "in_model v'" and ps: "in_model_members ps" by simp_all
  from ps have IH: "\<not> IsCallable (own_property ps k)" by (rule Cons.IH)
  show ?case
  proof (cases "k' = k")
    case True
    with p v show ?thesis by (simp add: own_property_def in_model_not_callable)
  next
    case False
    with p IH show ?thesis by (simp add: own_property_def)
  qed
qed

lemma value_start_simps:
  "value_start (CHR ''['' # s)" "value_start (CHR ''{'' # s)" "value_start (CHR 0x22 # s)"
  "value_start ''null''" "value_start ''true''" "value_start ''false''"
  by (simp_all add: value_start_def is_ws_def)

lemma value_end_simps: "value_end (CHR '','' # s)" "value_end (CHR '']'' # s)" "value_end (CHR ''}'' # s)"
  by (simp_all add: value_end_def)

lemma array_parses_back:
  assumes "vs \<noteq> [] \<Longrightarrow> elements_parse_back vs"
  shows "parses_back (JArray vs)"
proof (cases "vs = []")
  case True
  show ?thesis
  proof (rule parses_backI)
    show "SerializeJSONProperty (JArray vs) = Inr (Some ''[]'')" using True by simp
    show "value_start ''[]''" by (rule value_start_simps)
    show "parse_value (Suc n) (''[]'' @ rest) = Inr (JArray vs, rest)" for n rest
      unfolding True by (rule parse_value_array_empty)
  qed
next
  case False
  with assms have "elements_parse_back vs" by simp
  then obtain ts where ts: "SerializeJSONArray vs = Inr ts" and st: "value_start (join_comma ts)"
    and pb: "\<And>n rest. fuel_elements vs \<le> n \<Longrightarrow> parse_elements n (join_comma ts @ CHR '']'' # rest) = Inr (vs, rest)"
    unfolding elements_parse_back_def by blast
  let ?j = "join_comma ts"
  show ?thesis
  proof (rule parses_backI)
    show "SerializeJSONProperty (JArray vs) = Inr (Some (''['' @ ?j @ '']''))" using ts by simp
    show "value_start (''['' @ ?j @ '']'')" by (simp add: value_start_simps)
    show "parse_value (Suc n) ((''['' @ ?j @ '']'') @ rest) = Inr (JArray vs, rest)"
      if "fuel_value (JArray vs) \<le> Suc n" for n rest
    proof -
      from that have "fuel_elements vs \<le> n" by simp
      then have "parse_elements n (?j @ CHR '']'' # rest) = Inr (vs, rest)" by (rule pb)
      with st have "parse_value (Suc n) (''['' @ ?j @ '']'' @ rest) = Inr (JArray vs, rest)"
        by (intro parse_value_array)
      then show ?thesis by simp
    qed
  qed
qed

lemma object_parses_back:
  assumes "ps \<noteq> [] \<Longrightarrow> members_parse_back ps" and "wf_properties ps"
    and nc: "\<not> IsCallable (own_property ps ''toJSON'')"
  shows "parses_back (JObject ps)"
proof (cases "ps = []")
  case True
  show ?thesis
  proof (rule parses_backI)
    show "SerializeJSONProperty (JObject ps) = Inr (Some ''{}'')" using True by (simp add: own_property_def)
    show "value_start ''{}''" by (rule value_start_simps)
    show "parse_value (Suc n) (''{}'' @ rest) = Inr (JObject ps, rest)" for n rest
      unfolding True by (rule parse_value_object_empty)
  qed
next
  case False
  with assms have "members_parse_back ps" by simp
  then obtain ts where ts: "SerializeJSONObject ps = Inr ts" and st: "value_start (join_comma ts)"
    and pb: "\<And>n rest. fuel_members ps \<le> n \<Longrightarrow> parse_members n (join_comma ts @ CHR ''}'' # rest) = Inr (ps, rest)"
    unfolding members_parse_back_def by blast
  let ?j = "join_comma ts"
  show ?thesis
  proof (rule parses_backI)
    show "SerializeJSONProperty (JObject ps) = Inr (Some (''{'' @ ?j @ ''}''))" using ts nc by simp
    show "value_start (''{'' @ ?j @ ''}'')" by (simp add: value_start_simps)
    show "parse_value (Suc n) ((''{'' @ ?j @ ''}'') @ rest) = Inr (JObject ps, rest)"
      if "fuel_value (JObject ps) \<le> Suc n" for n rest
    proof -
      from that have "fuel_members ps \<le> n" by simp
      then have "parse_members n (?j @ CHR ''}'' # rest) = Inr (ps, rest)" by (rule pb)
      with st have "parse_value (Suc n) (''{'' @ ?j @ ''}'' @ rest)
          = Inr (JObject (foldl (\<lambda>ps (k, v). CreateDataProperty k v ps) [] ps), rest)"
        by (intro parse_value_object)
      with assms(2) show ?thesis by (simp add: foldl_CreateDataProperty_same)
    qed
  qed
qed

lemma elements_parse_back_Cons:
  assumes v: "parses_back v" and vs: "vs \<noteq> [] \<Longrightarrow> elements_parse_back vs"
  shows "elements_parse_back (v # vs)"
proof -
  from v obtain s where s: "SerializeJSONProperty v = Inr (Some s)" and st: "value_start s"
    and pb: "\<And>n rest. fuel_value v \<le> n \<Longrightarrow> value_end rest \<Longrightarrow> parse_value n (s @ rest) = Inr (v, rest)"
    unfolding parses_back_def by blast
  show ?thesis
  proof (cases "vs = []")
    case True
    have j: "SerializeJSONArray (v # vs) = Inr [s]" using True s by simp
    have "parse_elements n (join_comma [s] @ CHR '']'' # rest) = Inr (v # vs, rest)"
      if "fuel_elements (v # vs) \<le> n" for n rest
    proof -
      from that obtain m where n: "n = Suc m" and m: "fuel_value v \<le> m"
        by (cases n) simp_all
      from m have "parse_value m (s @ CHR '']'' # rest) = Inr (v, CHR '']'' # rest)"
        by (intro pb value_end_simps)
      then have "parse_elements (Suc m) (s @ CHR '']'' # rest) = Inr ([v], rest)"
        by (rule parse_elements_last)
      then show ?thesis unfolding n True by simp
    qed
    moreover from st have "value_start (join_comma [s])" by simp
    ultimately show ?thesis unfolding elements_parse_back_def using j by blast
  next
    case False
    with vs have "elements_parse_back vs" by simp
    then obtain ts where ts: "SerializeJSONArray vs = Inr ts" and tst: "value_start (join_comma ts)"
      and tback: "\<And>n rest. fuel_elements vs \<le> n \<Longrightarrow> parse_elements n (join_comma ts @ CHR '']'' # rest) = Inr (vs, rest)"
      unfolding elements_parse_back_def by blast
    let ?t = "join_comma ts"
    from tst have "ts \<noteq> []" by (rule value_start_join_comma)
    then have j: "join_comma (s # ts) = s @ CHR '','' # ?t" by (rule join_comma_Cons)
    have ser: "SerializeJSONArray (v # vs) = Inr (s # ts)" using s ts by simp
    have "parse_elements n (join_comma (s # ts) @ CHR '']'' # rest) = Inr (v # vs, rest)"
      if "fuel_elements (v # vs) \<le> n" for n rest
    proof -
      from that obtain m where n: "n = Suc m" and m: "fuel_value v \<le> m" "fuel_elements vs \<le> m"
        by (cases n) simp_all
      from m(1) have a: "parse_value m (s @ CHR '','' # (?t @ CHR '']'' # rest)) = Inr (v, CHR '','' # (?t @ CHR '']'' # rest))"
        by (intro pb value_end_simps)
      from tst have b: "value_start (?t @ CHR '']'' # rest)" by (rule value_start_append)
      from m(2) have c: "parse_elements m (?t @ CHR '']'' # rest) = Inr (vs, rest)" by (rule tback)
      from parse_elements_more [OF a b c] show ?thesis unfolding n j by simp
    qed
    moreover from st have "value_start (join_comma (s # ts))" unfolding j by (rule value_start_append)
    ultimately show ?thesis unfolding elements_parse_back_def using ser by blast
  qed
qed

lemma members_parse_back_Cons:
  assumes v: "parses_back v" and ps: "ps \<noteq> [] \<Longrightarrow> members_parse_back ps"
  shows "members_parse_back ((k, v) # ps)"
proof -
  from v obtain s where s: "SerializeJSONProperty v = Inr (Some s)" and st: "value_start s"
    and pb: "\<And>n rest. fuel_value v \<le> n \<Longrightarrow> value_end rest \<Longrightarrow> parse_value n (s @ rest) = Inr (v, rest)"
    unfolding parses_back_def by blast
  let ?m = "QuoteJSONString k @ CHR '':'' # s"
  have mst: "value_start (?m @ r)" for r
    by (simp add: QuoteJSONString_def value_start_simps)
  show ?thesis
  proof (cases "ps = []")
    case True
    have ser: "SerializeJSONObject ((k, v) # ps) = Inr [?m]" using True s by simp
    have "parse_members n (join_comma [?m] @ CHR ''}'' # rest) = Inr ((k, v) # ps, rest)"
      if "fuel_members ((k, v) # ps) \<le> n" for n rest
    proof -
      from that obtain m where n: "n = Suc m" and m: "fuel_value v \<le> m"
        by (cases n) simp_all
      from m have "parse_value m (s @ CHR ''}'' # rest) = Inr (v, CHR ''}'' # rest)"
        by (intro pb value_end_simps)
      from parse_members_last [OF this st, of k] show ?thesis unfolding n True by simp
    qed
    moreover from mst [of "[]"] have "value_start (join_comma [?m])" by simp
    ultimately show ?thesis unfolding members_parse_back_def using ser by blast
  next
    case False
    with ps have "members_parse_back ps" by simp
    then obtain ts where ts: "SerializeJSONObject ps = Inr ts" and tst: "value_start (join_comma ts)"
      and tback: "\<And>n rest. fuel_members ps \<le> n \<Longrightarrow> parse_members n (join_comma ts @ CHR ''}'' # rest) = Inr (ps, rest)"
      unfolding members_parse_back_def by blast
    let ?t = "join_comma ts"
    from tst have "ts \<noteq> []" by (rule value_start_join_comma)
    then have j: "join_comma (?m # ts) = ?m @ CHR '','' # ?t" by (rule join_comma_Cons)
    have ser: "SerializeJSONObject ((k, v) # ps) = Inr (?m # ts)" using s ts by simp
    have "parse_members n (join_comma (?m # ts) @ CHR ''}'' # rest) = Inr ((k, v) # ps, rest)"
      if "fuel_members ((k, v) # ps) \<le> n" for n rest
    proof -
      from that obtain m where n: "n = Suc m" and m: "fuel_value v \<le> m" "fuel_members ps \<le> m"
        by (cases n) simp_all
      from m(1) have a: "parse_value m (s @ CHR '','' # (?t @ CHR ''}'' # rest)) = Inr (v, CHR '','' # (?t @ CHR ''}'' # rest))"
        by (intro pb value_end_simps)
      from tst have b: "value_start (?t @ CHR ''}'' # rest)" by (rule value_start_append)
      from m(2) have c: "parse_members m (?t @ CHR ''}'' # rest) = Inr (ps, rest)" by (rule tback)
      from parse_members_more [OF a st b c, of k] show ?thesis unfolding n j by simp
    qed
    moreover have "value_start (join_comma (?m # ts))" unfolding j by (rule mst)
    ultimately show ?thesis unfolding members_parse_back_def using ser by blast
  qed
qed

lemma in_model_parses_back:
  "in_model v \<longrightarrow> parses_back v"
  "in_model_elements vs \<longrightarrow> vs \<noteq> [] \<longrightarrow> elements_parse_back vs"
  "in_model_members ps \<longrightarrow> ps \<noteq> [] \<longrightarrow> members_parse_back ps"
proof (induction v and vs and ps rule: in_model_in_model_elements_in_model_members.induct)
  case 1
  show ?case by simp
next
  case 2
  have "parses_back JNull"
    by (rule parses_backI [where s = "''null''"]) (simp_all only: SerializeJSONProperty.simps value_start_simps parse_value_null)
  then show ?case by simp
next
  case (3 b)
  have t: "parses_back (JBoolean True)"
    by (rule parses_backI [where s = "''true''"]) (simp_all only: SerializeJSONProperty.simps value_start_simps parse_value_true if_True)
  have f: "parses_back (JBoolean False)"
    by (rule parses_backI [where s = "''false''"]) (simp_all only: SerializeJSONProperty.simps value_start_simps parse_value_false if_False)
  from t f show ?case by (cases b) simp_all
next
  case (4 n)
  have "parses_back (JNumber n)" if "safe_integer n"
  proof (rule parses_backI)
    show "SerializeJSONProperty (JNumber n) = Inr (Some (int_digits n))"
      using that by (simp add: Number_toString_def)
    show "value_start (int_digits n)" by (rule value_start_number)
    show "parse_value (Suc m) (int_digits n @ rest) = Inr (JNumber n, rest)" if "value_end rest" for m rest
      using \<open>safe_integer n\<close> value_end_number_end [OF that] by (rule parse_value_number)
  qed
  then show ?case by simp
next
  case (5 n)
  show ?case by simp
next
  case (6 s)
  have "parses_back (JString s)"
  proof (rule parses_backI)
    show "SerializeJSONProperty (JString s) = Inr (Some (QuoteJSONString s))" by simp
    show "value_start (QuoteJSONString s)" by (simp add: QuoteJSONString_def value_start_simps)
    show "parse_value (Suc m) (QuoteJSONString s @ rest) = Inr (JString s, rest)" for m rest
      by (rule parse_value_string)
  qed
  then show ?case by simp
next
  case (7 f)
  show ?case by simp
next
  case (8 vs)
  then show ?case by (simp add: array_parses_back)
next
  case (9 ps)
  then show ?case by (simp add: object_parses_back in_model_members_not_callable)
next
  case 10
  show ?case by simp
next
  case (11 v vs)
  then show ?case by (simp add: elements_parse_back_Cons)
next
  case 12
  show ?case by simp
next
  case (13 k v ps)
  then show ?case by (simp add: members_parse_back_Cons)
qed

lemma length_join_comma_Cons:
  "xs \<noteq> [] \<Longrightarrow> length (join_comma (x # xs)) = length x + 1 + length (join_comma xs)"
  by (simp add: join_comma_Cons)

lemma value_start_length: "value_start s \<Longrightarrow> 1 \<le> length s"
  by (cases s) (simp_all add: value_start_def)

text \<open>The fuel of a value of the model is at most twice the length of its text.\<close>

lemma fuel_elements_Cons:
  assumes "fuel_value v \<le> 2 * length s" and "fuel_elements vs \<le> 2 * length (join_comma ts) + 2"
    and "vs = [] \<longleftrightarrow> ts = []"
  shows "fuel_elements (v # vs) \<le> 2 * length (join_comma (s # ts)) + 2"
proof (cases "ts = []")
  case True
  with assms show ?thesis by simp
next
  case False
  then have "length (join_comma (s # ts)) = length s + 1 + length (join_comma ts)"
    by (rule length_join_comma_Cons)
  with assms show ?thesis by simp
qed

lemma fuel_members_Cons:
  assumes "fuel_value v \<le> 2 * length s" and "fuel_members ps \<le> 2 * length (join_comma ts) + 2"
    and "ps = [] \<longleftrightarrow> ts = []"
  shows "fuel_members ((k, v) # ps) \<le> 2 * length (join_comma ((QuoteJSONString k @ CHR '':'' # s) # ts)) + 2"
proof (cases "ts = []")
  case True
  with assms show ?thesis by simp
next
  case False
  then have "length (join_comma ((QuoteJSONString k @ CHR '':'' # s) # ts))
      = length (QuoteJSONString k @ CHR '':'' # s) + 1 + length (join_comma ts)"
    by (rule length_join_comma_Cons)
  with assms show ?thesis by simp
qed

lemma fuel_bound:
  "in_model v \<longrightarrow> (\<exists>s. SerializeJSONProperty v = Inr (Some s) \<and> fuel_value v \<le> 2 * length s)"
  "in_model_elements vs \<longrightarrow>
     (\<exists>ts. SerializeJSONArray vs = Inr ts \<and> (vs = [] \<longleftrightarrow> ts = []) \<and> fuel_elements vs \<le> 2 * length (join_comma ts) + 2)"
  "in_model_members ps \<longrightarrow>
     (\<exists>ts. SerializeJSONObject ps = Inr ts \<and> (ps = [] \<longleftrightarrow> ts = []) \<and> fuel_members ps \<le> 2 * length (join_comma ts) + 2)"
proof (induction v and vs and ps rule: in_model_in_model_elements_in_model_members.induct)
  case 1
  show ?case by simp
next
  case 2
  show ?case by simp
next
  case (3 b)
  show ?case by simp
next
  case (4 n)
  have "1 \<le> length (int_digits n)" using value_start_number by (rule value_start_length)
  then show ?case by (simp add: Number_toString_def)
next
  case (5 n)
  show ?case by simp
next
  case (6 s)
  show ?case by (simp add: QuoteJSONString_def)
next
  case (7 f)
  show ?case by simp
next
  case (8 vs)
  then show ?case by auto
next
  case (9 ps)
  then show ?case by (auto simp: in_model_members_not_callable)
next
  case 10
  show ?case by simp
next
  case (11 v vs)
  show ?case
  proof (intro impI)
    assume "in_model_elements (v # vs)"
    then have v: "in_model v" and vs: "in_model_elements vs" by simp_all
    from v "11.IH"(1) obtain s where s: "SerializeJSONProperty v = Inr (Some s)"
      and fv: "fuel_value v \<le> 2 * length s" by blast
    from vs "11.IH"(2) obtain ts where ts: "SerializeJSONArray vs = Inr ts"
      and e: "vs = [] \<longleftrightarrow> ts = []" and fe: "fuel_elements vs \<le> 2 * length (join_comma ts) + 2" by blast
    from s ts have "SerializeJSONArray (v # vs) = Inr (s # ts)" by simp
    moreover from fv fe e have "fuel_elements (v # vs) \<le> 2 * length (join_comma (s # ts)) + 2"
      by (rule fuel_elements_Cons)
    ultimately show "\<exists>ts'. SerializeJSONArray (v # vs) = Inr ts' \<and> (v # vs = [] \<longleftrightarrow> ts' = [])
        \<and> fuel_elements (v # vs) \<le> 2 * length (join_comma ts') + 2"
      by blast
  qed
next
  case 12
  show ?case by simp
next
  case (13 k v ps)
  show ?case
  proof (intro impI)
    assume "in_model_members ((k, v) # ps)"
    then have v: "in_model v" and ps: "in_model_members ps" by simp_all
    from v "13.IH"(1) obtain s where s: "SerializeJSONProperty v = Inr (Some s)"
      and fv: "fuel_value v \<le> 2 * length s" by blast
    from ps "13.IH"(2) obtain ts where ts: "SerializeJSONObject ps = Inr ts"
      and e: "ps = [] \<longleftrightarrow> ts = []" and fe: "fuel_members ps \<le> 2 * length (join_comma ts) + 2" by blast
    let ?m = "QuoteJSONString k @ CHR '':'' # s"
    from s ts have "SerializeJSONObject ((k, v) # ps) = Inr (?m # ts)" by simp
    moreover from fv fe e have "fuel_members ((k, v) # ps) \<le> 2 * length (join_comma (?m # ts)) + 2"
      by (rule fuel_members_Cons)
    ultimately show "\<exists>ts'. SerializeJSONObject ((k, v) # ps) = Inr ts' \<and> ((k, v) # ps = [] \<longleftrightarrow> ts' = [])
        \<and> fuel_members ((k, v) # ps) \<le> 2 * length (join_comma ts') + 2"
      by blast
  qed
qed

lemma JSON_parse_stringify:
  assumes "in_model v"
  shows "\<exists>s. SerializeJSONProperty v = Inr (Some s) \<and> JSON_parse s = Inr v"
proof -
  from assms in_model_parses_back(1) have "parses_back v" by blast
  then obtain s where s: "SerializeJSONProperty v = Inr (Some s)" and st: "value_start s"
    and pb: "\<And>n rest. fuel_value v \<le> n \<Longrightarrow> value_end rest \<Longrightarrow> parse_value n (s @ rest) = Inr (v, rest)"
    unfolding parses_back_def by blast
  from assms fuel_bound(1) s have "fuel_value v \<le> 2 * length s + 1" by fastforce
  then have "parse_value (2 * length s + 1) (s @ []) = Inr (v, [])"
    by (rule pb) (simp add: value_end_def)
  moreover from st have "skip_ws s = s" using skip_ws_value_start [of s "[]"] by simp
  ultimately have "JSON_parse s = Inr v" by (simp add: JSON_parse_def skip_ws_def del: parse_value.simps)
  with s show ?thesis by blast
qed

lemma JSON_stringify_object_plain:
  assumes "SerializeJSONProperty (JObject ps) = Inr (Some s)"
  shows "JSON_stringify_object \<lparr>prototype_slot = ObjectPrototype, properties = ps\<rparr> = Inr s"
  using assms
  by (auto simp: JSON_stringify_object_def Get_toJSON_def own_property_def split: if_splits sum.splits option.splits)

lemma JSON_parse_stringify_object:
  assumes "wf_properties ps" and "in_model_members ps"
  shows "\<exists>text. JSON_stringify_object \<lparr>prototype_slot = ObjectPrototype, properties = ps\<rparr> = Inr text
      \<and> JSON_parse text = Inr (JObject ps)"
proof -
  from assms have "in_model (JObject ps)" by simp
  then obtain s where s: "SerializeJSONProperty (JObject ps) = Inr (Some s)" and p: "JSON_parse s = Inr (JObject ps)"
    using JSON_parse_stringify by blast
  from s have "JSON_stringify_object \<lparr>prototype_slot = ObjectPrototype, properties = ps\<rparr> = Inr s"
    by (rule JSON_stringify_object_plain)
  with p show ?thesis by blast
qed

subsection \<open>The object that snapshot builds\<close>

lemma property_ordered_Cons:
  "property_ordered (k # ks) \<longleftrightarrow> (ks = [] \<or> (key_before k (hd ks) \<and> property_ordered ks))"
  by (cases ks) auto

lemma hd_insert_property:
  "hd (map fst (insert_property k v ps)) = k \<or> (ps \<noteq> [] \<and> hd (map fst (insert_property k v ps)) = hd (map fst ps))"
  by (cases ps) (auto split: option.splits)

lemma insert_property_not_Nil: "insert_property k v ps \<noteq> []"
  by (cases ps) (auto split: option.splits if_splits)

lemma property_ordered_insert:
  "property_ordered (map fst ps) \<Longrightarrow> property_ordered (map fst (insert_property k v ps))"
proof (induction ps)
  case Nil
  show ?case by simp
next
  case (Cons p ps)
  obtain k' v' where p: "p = (k', v')" by (cases p)
  from Cons.prems p have tail: "property_ordered (map fst ps)"
    using property_ordered_tail [of k' "map fst ps"] by simp
  then have IH: "property_ordered (map fst (insert_property k v ps))" by (rule Cons.IH)
  from Cons.prems p have whole: "property_ordered (k' # map fst ps)" by simp
  have step: "property_ordered (k' # map fst (insert_property k v ps))" if rel: "key_before k' k"
  proof -
    from hd_insert_property [of k v ps]
    consider "hd (map fst (insert_property k v ps)) = k"
      | "ps \<noteq> []" "hd (map fst (insert_property k v ps)) = hd (map fst ps)" by blast
    then have "key_before k' (hd (map fst (insert_property k v ps)))"
    proof cases
      case 1
      with rel show ?thesis by simp
    next
      case 2
      from whole 2(1) have "key_before k' (hd (map fst ps))"
        by (simp add: property_ordered_Cons [of k' "map fst ps"])
      with 2(2) show ?thesis by simp
    qed
    with IH show ?thesis by (simp add: property_ordered_Cons [of k'])
  qed
  show ?case
  proof (cases "array_index k")
    case None
    have "key_before k' k" using None by (simp add: key_before_def split: option.split)
    then have "property_ordered (k' # map fst (insert_property k v ps))" by (rule step)
    with None p show ?thesis by simp
  next
    case (Some n)
    show ?thesis
    proof (cases "array_index k'")
      case None
      have "key_before k k'" using None Some by (simp add: key_before_def)
      with None Some p whole show ?thesis by simp
    next
      case (Some n')
      show ?thesis
      proof (cases "n < n'")
        case True
        have "key_before k k'" using True Some \<open>array_index k = Some n\<close> by (simp add: key_before_def)
        with True Some \<open>array_index k = Some n\<close> p whole show ?thesis by simp
      next
        case False
        have "key_before k' k" using False Some \<open>array_index k = Some n\<close> by (simp add: key_before_def)
        then have "property_ordered (k' # map fst (insert_property k v ps))" by (rule step)
        with False Some \<open>array_index k = Some n\<close> p show ?thesis by simp
      qed
    qed
  qed
qed

lemma property_ordered_CreateDataProperty:
  "property_ordered (map fst ps) \<Longrightarrow> property_ordered (map fst (CreateDataProperty k v ps))"
  by (simp add: CreateDataProperty_def keys_update_property property_ordered_insert)

lemma wf_properties_foldl:
  "wf_properties ps \<Longrightarrow> wf_properties (foldl (\<lambda>ps (k, v). CreateDataProperty k v ps) ps es)"
proof (induction es arbitrary: ps)
  case Nil
  then show ?case by simp
next
  case (Cons e es)
  obtain k v where e: "e = (k, v)" by (cases e)
  from Cons.prems have "wf_properties (CreateDataProperty k v ps)"
    by (simp add: wf_properties_def distinct_CreateDataProperty property_ordered_CreateDataProperty)
  then show ?case unfolding e by (simp add: Cons.IH)
qed

lemma in_model_members_iff: "in_model_members ps \<longleftrightarrow> (\<forall>p \<in> set ps. in_model (snd p))"
  by (induction ps) auto

lemma set_insert_property: "set (insert_property k v ps) = insert (k, v) (set ps)"
  by (induction ps) (auto split: option.splits if_splits)

lemma set_update_property: "set (update_property k v ps) \<subseteq> insert (k, v) (set ps)"
proof (induction ps)
  case Nil
  show ?case by (simp add: update_property_def)
next
  case (Cons p ps)
  obtain k' v' where p: "p = (k', v')" by (cases p)
  from Cons.IH have "set (update_property k v ps) \<subseteq> insert (k, v) (set ps)" .
  moreover have "update_property k v (p # ps)
      = (if k' = k then (k', v) else (k', v')) # update_property k v ps"
    by (simp add: update_property_def p)
  ultimately show ?case unfolding p by auto
qed

lemma in_model_members_CreateDataProperty:
  assumes "in_model v" and "in_model_members ps"
  shows "in_model_members (CreateDataProperty k v ps)"
proof -
  have "set (CreateDataProperty k v ps) \<subseteq> insert (k, v) (set ps)"
    using set_update_property [of k v ps] by (simp add: CreateDataProperty_def set_insert_property)
  with assms show ?thesis unfolding in_model_members_iff by auto
qed

lemma in_model_members_foldl:
  "in_model_members ps \<Longrightarrow> in_model_members es \<Longrightarrow>
   in_model_members (foldl (\<lambda>ps (k, v). CreateDataProperty k v ps) ps es)"
proof (induction es arbitrary: ps)
  case Nil
  then show ?case by simp
next
  case (Cons e es)
  obtain k v where e: "e = (k, v)" by (cases e)
  from Cons.prems e have "in_model_members (CreateDataProperty k v ps)" and "in_model_members es"
    by (simp_all add: in_model_members_CreateDataProperty)
  then show ?case unfolding e by (simp add: Cons.IH)
qed

lemma update_property_Cons:
  "update_property k v ((k', v') # ps) = (k', if k' = k then v else v') # update_property k v ps"
  by (simp add: update_property_def)

lemma map_of_update_property_apply:
  "map_of (update_property k v ps) x = (if x = k \<and> k \<in> fst ` set ps then Some v else map_of ps x)"
proof (induction ps)
  case Nil
  show ?case by (simp add: update_property_def)
next
  case (Cons p ps)
  obtain k' v' where p: "p = (k', v')" by (cases p)
  show ?case
  proof (cases "x = k'")
    case True
    then show ?thesis unfolding p update_property_Cons by simp
  next
    case False
    then show ?thesis unfolding p update_property_Cons using Cons.IH by auto
  qed
qed

lemma map_of_update_property:
  "k \<in> fst ` set ps \<Longrightarrow> map_of (update_property k v ps) = (map_of ps)(k \<mapsto> v)"
  by (auto simp: fun_eq_iff map_of_update_property_apply)

lemma map_of_insert_property:
  "k \<notin> fst ` set ps \<Longrightarrow> map_of (insert_property k v ps) = (map_of ps)(k \<mapsto> v)"
proof (induction ps)
  case Nil
  show ?case by simp
next
  case (Cons p ps)
  obtain k' v' where p: "p = (k', v')" by (cases p)
  from Cons.prems p have ne: "k' \<noteq> k" and "k \<notin> fst ` set ps" by auto
  then have IH: "map_of (insert_property k v ps) = (map_of ps)(k \<mapsto> v)" by (intro Cons.IH)
  have a: "map_of ((k', v') # insert_property k v ps) = (map_of ((k', v') # ps))(k \<mapsto> v)"
    using ne by (auto simp: IH fun_eq_iff)
  have b: "map_of ((k, v) # (k', v') # ps) = (map_of ((k', v') # ps))(k \<mapsto> v)"
    by (auto simp: fun_eq_iff)
  have "insert_property k v ((k', v') # ps) = (k', v') # insert_property k v ps
      \<or> insert_property k v ((k', v') # ps) = (k, v) # (k', v') # ps"
    by (simp split: option.split)
  with a b show ?case unfolding p by metis
qed

lemma map_of_CreateDataProperty: "map_of (CreateDataProperty k v ps) = (map_of ps)(k \<mapsto> v)"
  by (simp add: CreateDataProperty_def map_of_update_property map_of_insert_property)

lemma map_of_foldl_CreateDataProperty:
  "map_of (foldl (\<lambda>ps (k, v). CreateDataProperty k v ps) ps es)
     = map_of (foldl (\<lambda>m (k, v). Map_set k v m) ps es)"
proof -
  have a: "map_of (foldl (\<lambda>ps (k, v). CreateDataProperty k v ps) ps es)
      = foldl (\<lambda>m (k, v). m(k \<mapsto> v)) (map_of ps) es" for ps
    by (induction es arbitrary: ps) (auto simp: map_of_CreateDataProperty)
  have b: "map_of (foldl (\<lambda>m (k, v). Map_set k v m) ps es)
      = foldl (\<lambda>m (k, v). m(k \<mapsto> v)) (map_of ps) es" for ps
    by (induction es arbitrary: ps) (auto simp: map_of_Map_set)
  from a b show ?thesis by simp
qed

subsection \<open>The round trip\<close>

text \<open>
  An object built by \<open>set\<close> has distinct keys. When none of them is \<^verbatim>\<open>__proto__\<close> and the
  values are in the model, the snapshot, stored and loaded into a new object, gives the
  same mapping: \<open>get\<close> returns for every key what it returned before.
\<close>

theorem reload_roundtrip:
  assumes keys: "distinct (map fst (data this))"
    and no_proto: "''__proto__'' \<notin> fst ` set (data this)"
    and vals: "in_model_members (data this)"
  shows "fst (reload this) = Inr ()"
    and "map_of (data (snd (reload this))) = map_of (data this)"
    and "fst (get k (snd (reload this))) = fst (get k this)"
proof -
  define ps where "ps = foldl (\<lambda>ps (k, v). CreateDataProperty k v ps) [] (data this)"
  have "wf_properties []" by (simp add: wf_properties_def)
  then have wf: "wf_properties ps" unfolding ps_def by (rule wf_properties_foldl)
  have im: "in_model_members ps" unfolding ps_def using vals by (intro in_model_members_foldl) simp_all
  from wf im obtain json
    where str: "JSON_stringify_object \<lparr>prototype_slot = ObjectPrototype, properties = ps\<rparr> = Inr json"
      and parse: "JSON_parse json = Inr (JObject ps)"
    using JSON_parse_stringify_object by blast
  define tree where "tree = ITree [ITreeEntry File ''header'' ''Blob''
          (BlobValue \<lparr>contents = json, encoding = ''utf-8''\<rparr>)] None"
  have snap: "fst (snapshot this) = Inr tree"
    unfolding tree_def using no_proto str [unfolded ps_def] by (rule snapshot_contents_no_proto)
  have rd: "read (storage_of tree) snapshotFileName = Inr (utf8_to_base64 json)"
    by (simp add: storage_of_def tree_def snapshotFileName_def)
  have dec: "base64_to_utf8 (utf8_to_base64 json) = Inr json"
    by (rule base64_to_utf8_inverse)
  have load: "loadCore base64_to_utf8 [] (storage_of tree) new_SummarizableObject
      = (Inr (), set_entries ps new_SummarizableObject)"
    by (simp add: loadCore_def rd dec parse)
  from snap load have re: "reload this = (Inr (), set_entries ps new_SummarizableObject)"
    by (simp add: reload_def)
  from wf have "distinct (map fst ([] @ ps))" by (simp add: wf_properties_def)
  then have "foldl (\<lambda>m (k, v). Map_set k v m) [] ps = [] @ ps" by (rule foldl_Map_set_distinct)
  then have dat: "data (set_entries ps new_SummarizableObject) = ps"
    by (simp add: data_set_entries new_SummarizableObject_def)
  from keys have "distinct (map fst ([] @ data this))" by simp
  then have "foldl (\<lambda>m (k, v). Map_set k v m) [] (data this) = [] @ data this"
    by (rule foldl_Map_set_distinct)
  then have same: "map_of ps = map_of (data this)"
    unfolding ps_def by (simp add: map_of_foldl_CreateDataProperty)
  from re show "fst (reload this) = Inr ()" by simp
  from re dat same show "map_of (data (snd (reload this))) = map_of (data this)" by simp
  from re dat same show "fst (get k (snd (reload this))) = fst (get k this)"
    by (simp add: get_def Map_get_def)
qed

lemma set_Map_set: "set (Map_set k v m) \<subseteq> insert (k, v) (set m)"
  by (induction m) (auto split: if_splits)

lemma in_model_members_Map_set:
  assumes "in_model v" and "in_model_members m"
  shows "in_model_members (Map_set k v m)"
  using assms set_Map_set [of k v m] unfolding in_model_members_iff by auto

lemma foldl_Map_set_invariants:
  assumes "distinct (map fst m)" and "in_model_members m" and "in_model_members kvs"
  shows "distinct (map fst (foldl (\<lambda>m (k, v). Map_set k v m) m kvs))"
    and "in_model_members (foldl (\<lambda>m (k, v). Map_set k v m) m kvs)"
    and "fst ` set (foldl (\<lambda>m (k, v). Map_set k v m) m kvs) = fst ` set m \<union> fst ` set kvs"
  using assms
proof (induction kvs arbitrary: m)
  case Nil
  {
    case 1 then show ?case by simp
  next
    case 2 then show ?case by simp
  next
    case 3 then show ?case by simp
  }
next
  case (Cons kv kvs)
  obtain k v where kv: "kv = (k, v)" by (cases kv)
  {
    case 1
    then have "distinct (map fst (Map_set k v m))" "in_model_members (Map_set k v m)" "in_model_members kvs"
      by (simp_all add: kv distinct_Map_set in_model_members_Map_set)
    then show ?case unfolding kv by (simp add: Cons.IH(1))
  next
    case 2
    then have "distinct (map fst (Map_set k v m))" "in_model_members (Map_set k v m)" "in_model_members kvs"
      by (simp_all add: kv distinct_Map_set in_model_members_Map_set)
    then show ?case unfolding kv by (simp add: Cons.IH(2))
  next
    case 3
    then have "distinct (map fst (Map_set k v m))" "in_model_members (Map_set k v m)" "in_model_members kvs"
      by (simp_all add: kv distinct_Map_set in_model_members_Map_set)
    then have "fst ` set (foldl (\<lambda>m (k, v). Map_set k v m) (Map_set k v m) kvs)
        = fst ` set (Map_set k v m) \<union> fst ` set kvs"
      by (rule Cons.IH(3))
    then show ?case unfolding kv by (simp add: keys_Map_set)
  }
qed

text \<open>
  For objects built by calls of \<open>set\<close>: when no key is \<^verbatim>\<open>__proto__\<close> and the values are
  in the model, the new object answers every \<open>get\<close> as the old one does.
\<close>

theorem reload_after_sets:
  assumes "''__proto__'' \<notin> fst ` set kvs" and "in_model_members kvs"
  shows "fst (reload (set_all kvs new_SummarizableObject)) = Inr ()"
    and "fst (get k (snd (reload (set_all kvs new_SummarizableObject))))
           = fst (get k (set_all kvs new_SummarizableObject))"
proof -
  let ?s = "set_all kvs new_SummarizableObject"
  have d: "data ?s = foldl (\<lambda>m (k, v). Map_set k v m) [] kvs"
    by (simp add: data_set_all new_SummarizableObject_def)
  have e: "distinct (map fst ([] :: (string \<times> jsvalue) list))" "in_model_members []" by simp_all
  note inv = foldl_Map_set_invariants [OF e assms(2)]
  from inv(1) have 1: "distinct (map fst (data ?s))" by (simp add: d)
  from inv(3) assms(1) have 2: "''__proto__'' \<notin> fst ` set (data ?s)" by (simp add: d)
  from inv(2) have 3: "in_model_members (data ?s)" by (simp add: d)
  from 1 2 3 show "fst (reload ?s) = Inr ()" by (rule reload_roundtrip(1))
  from 1 2 3 show "fst (get k (snd (reload ?s))) = fst (get k ?s)" by (rule reload_roundtrip(3))
qed

text \<open>
  The scenario of the spec: \<open>set("count", 3)\<close>, \<open>set("name", "a")\<close>, snapshot, load into a
  new object; there \<open>get\<close> gives 3 and \<^verbatim>\<open>"a"\<close>.
\<close>

lemma reload_scenario:
  "reload (set_all [(''count'', JNumber 3), (''name'', JString ''a'')] new_SummarizableObject)
     = (Inr (), \<lparr>is_dirty = False, data = [(''count'', JNumber 3), (''name'', JString ''a'')]\<rparr>)"
  by code_simp

text \<open>
  C1, at a mapping with the key \<^verbatim>\<open>__proto__\<close>: the snapshot, stored and loaded into a
  new object, gives the empty mapping; the key that held 1 now gives \<^verbatim>\<open>undefined\<close>.
\<close>

theorem reload_loses_proto_entry:
  \<open>fst (get ''__proto__'' (snd (set_value ''__proto__'' (JNumber 1) new_SummarizableObject))) = Inr (JNumber 1)
   \<and> reload (snd (set_value ''__proto__'' (JNumber 1) new_SummarizableObject)) = (Inr (), new_SummarizableObject)
   \<and> fst (get ''__proto__'' (snd (reload (snd (set_value ''__proto__'' (JNumber 1) new_SummarizableObject)))))
     = Inr JUndefined\<close>
  by code_simp

end
